theory Spec2Isabelle
  imports Main "HOL-Library.Word" "HOL-Library.Signed_Division"
begin

unbundle bit_operations_syntax

section \<open>Machine integers of the C++ sources\<close>

text \<open>
  The headers \<^verbatim>\<open>matrixmap.h\<close> and \<^verbatim>\<open>custom_orientation.h\<close> compute with three
  integer types. On the 64-bit target of the library (LP64) they are:
  \<^item> \<^verbatim>\<open>size_t\<close>: 64 bits, unsigned, arithmetic modulo \<open>2 ^ 64\<close>;
  \<^item> \<^verbatim>\<open>uint32_t\<close> and \<^verbatim>\<open>unsigned\<close>: 32 bits, unsigned, arithmetic modulo \<open>2 ^ 32\<close>;
  \<^item> \<^verbatim>\<open>int\<close>: 32 bits, two's complement. A value is read with \<open>sint\<close>, compared with
    \<open><s\<close> and \<open>\<le>s\<close>. Conversions between the types keep the low bits (\<open>ucast\<close>) or
    extend the sign (\<open>scast\<close>), as C++ defines them. Signed arithmetic is modelled as
    wrapping; C++ leaves signed overflow undefined, so wherever a theorem reads a signed
    result as a number it also shows that the exact result fits.
\<close>

type_synonym size_t = "64 word"
type_synonym uint32_t = "32 word"
type_synonym c_int = "32 word"

text \<open>
  \<^verbatim>\<open>x << n\<close> is defined by C++ only for \<open>n\<close> below the width of \<open>x\<close>. The two functions
  that shift by the \<^verbatim>\<open>size_t\<close> parameter \<^verbatim>\<open>n_addr_lines\<close> do not check it; for a larger
  count the model takes the count modulo the width, which is what the shift instructions
  of the target do. The theorems about these functions are stated for counts in range.
\<close>

text \<open>
  Division and remainder of \<^verbatim>\<open>int\<close> truncate towards zero (\<open>sdiv\<close>, \<open>smod\<close> on the
  signed values).
\<close>

definition int_div :: "c_int \<Rightarrow> c_int \<Rightarrow> c_int" where
  "int_div a b = word_of_int (sint a sdiv sint b)"

definition int_mod :: "c_int \<Rightarrow> c_int \<Rightarrow> c_int" where
  "int_mod a b = word_of_int (sint a smod sint b)"

section \<open>Orientation transforms\<close>

text \<open>\<^verbatim>\<open>using matrix_map = std::vector<int>\<close>\<close>

type_synonym matrix_map = "c_int list"

text \<open>\<^verbatim>\<open>enum orientation { normal, r180, ccw, cw }\<close>\<close>

datatype orientation = normal | r180 | ccw | cw

definition orientation_normal :: "c_int \<Rightarrow> c_int \<Rightarrow> c_int \<Rightarrow> c_int \<Rightarrow> c_int" where
  "orientation_normal width height x y = x + width * y"

definition orientation_r180 :: "c_int \<Rightarrow> c_int \<Rightarrow> c_int \<Rightarrow> c_int \<Rightarrow> c_int" where
  "orientation_r180 width height x y =
     orientation_normal width height (width - x - 1) (height - y - 1)"

definition orientation_ccw :: "c_int \<Rightarrow> c_int \<Rightarrow> c_int \<Rightarrow> c_int \<Rightarrow> c_int" where
  "orientation_ccw width height x y =
     orientation_normal height width y (width - x - 1)"

definition orientation_cw :: "c_int \<Rightarrow> c_int \<Rightarrow> c_int \<Rightarrow> c_int \<Rightarrow> c_int" where
  "orientation_cw width height x y =
     orientation_normal height width (y - height - 1) x"

text \<open>
  \<^verbatim>\<open>custom_panel_orientation\<close> of \<^verbatim>\<open>custom_orientation.h\<close>: the panel size 64 by 32 and
  the three panels per row are constants of the source.
\<close>

definition custom_panel_orientation :: "c_int \<Rightarrow> c_int \<Rightarrow> c_int \<Rightarrow> c_int \<Rightarrow> c_int" where
  "custom_panel_orientation width height x y =
     (let panel_x = int_div x 64;
          panel_y = int_div y 32;
          local_x = int_mod x 64;
          local_y = int_mod y 32;
          panel_x = (if panel_y = 0 then 2 - panel_x else panel_x);
          new_x = panel_x * 64 + local_x;
          new_y = panel_y * 32 + local_y
      in new_x + width * new_y)"

section \<open>Errors\<close>

text \<open>
  Every \<^verbatim>\<open>throw\<close> of the headers is a \<^verbatim>\<open>std::range_error\<close>; the vector that holds the
  pixel-address map throws \<^verbatim>\<open>std::length_error\<close>.
\<close>

datatype error = range_error | length_error

section \<open>The vector of the map\<close>

text \<open>
  \<^verbatim>\<open>std::vector<int>\<close> as a list; \<^verbatim>\<open>size()\<close> is its length as a \<^verbatim>\<open>size_t\<close>.
  \<^verbatim>\<open>max_size()\<close> of the GNU C++ library is \<^verbatim>\<open>PTRDIFF_MAX / sizeof(int)\<close>, that is
  \<open>2 ^ 61 - 1\<close>. \<^verbatim>\<open>reserve(n)\<close> throws when \<open>n\<close> is above it and otherwise leaves the
  elements as they are; \<^verbatim>\<open>push_back\<close> throws when the vector already holds that many
  elements. Running out of memory (\<^verbatim>\<open>std::bad_alloc\<close>) depends on the machine and is not
  part of the model.
\<close>

definition max_size :: size_t where
  "max_size = (2 ^ 63 - 1) div 4"

definition reserve :: "size_t \<Rightarrow> 'a list \<Rightarrow> error + 'a list" where
  "reserve n v = (if max_size < n then Inl length_error else Inr v)"

definition push_back :: "'a \<Rightarrow> 'a list \<Rightarrow> error + 'a list" where
  "push_back x v = (if max_size \<le> of_nat (length v) then Inl length_error else Inr (v @ [x]))"

section \<open>Loops\<close>

text \<open>
  \<^verbatim>\<open>for (size_t k = start; k < n; k++) body\<close>, the state threaded through the body.
  An exception thrown by the body leaves the loop. The counter cannot wrap: it is
  incremented only while it is below \<open>n\<close>.
\<close>

function for_size_t :: "size_t \<Rightarrow> size_t \<Rightarrow> (size_t \<Rightarrow> 'a \<Rightarrow> error + 'a) \<Rightarrow> 'a \<Rightarrow> error + 'a" where
  "for_size_t k n body s =
     (if k < n
      then case body k s of Inl e \<Rightarrow> Inl e | Inr s' \<Rightarrow> for_size_t (k + 1) n body s'
      else Inr s)"
  by pat_completeness auto
termination
proof (relation "measure (\<lambda>(k, n, body, s). unat n - unat k)")
  show "wf (measure (\<lambda>(k :: size_t, n :: size_t, body :: size_t \<Rightarrow> 'a \<Rightarrow> error + 'a, s :: 'a).
      unat n - unat k))"
    by simp
next
  fix k n :: size_t and body :: "size_t \<Rightarrow> 'a \<Rightarrow> error + 'a" and s s' :: 'a
  assume "k < n"
  then have lt: "unat k < unat n"
    by (simp add: word_less_nat_alt)
  have "unat n < 2 ^ 64"
    using unsigned_less [of n, where ?'a = nat] by simp
  with lt have "unat k + unat (1 :: size_t) < 2 ^ LENGTH(64)"
    by simp
  then have "unat (k + 1) = unat k + 1"
    using unat_add_lem [of k 1] by simp
  with lt show "((k + 1, n, body, s'), (k, n, body, s))
      \<in> measure (\<lambda>(k, n, body, s). unat n - unat k)"
    by simp
qed

declare for_size_t.simps [simp del]

text \<open>\<^verbatim>\<open>for (int k = start; k < n; k++) body\<close>, with the signed comparison of \<^verbatim>\<open>int\<close>.\<close>

function for_int :: "c_int \<Rightarrow> c_int \<Rightarrow> (c_int \<Rightarrow> 'a \<Rightarrow> 'a) \<Rightarrow> 'a \<Rightarrow> 'a" where
  "for_int k n body s = (if k <s n then for_int (k + 1) n body (body k s) else s)"
  by pat_completeness auto
termination
proof (relation "measure (\<lambda>(k, n, body, s). nat (sint n - sint k))")
  show "wf (measure (\<lambda>(k :: c_int, n :: c_int, body :: c_int \<Rightarrow> 'a \<Rightarrow> 'a, s :: 'a). nat (sint n - sint k)))"
    by simp
next
  fix k n :: c_int and body :: "c_int \<Rightarrow> 'a \<Rightarrow> 'a" and s :: 'a
  assume "k <s n"
  then have lt: "sint k < sint n"
    by (simp add: word_sless_alt)
  have "sint n < 2 ^ 31" "- (2 ^ 31) \<le> sint k"
    using sint_range_size [of n] sint_range_size [of k] by (simp_all add: word_size)
  with lt have "signed_take_bit 31 (sint k + 1) = sint k + 1"
    by (intro signed_take_bit_int_eq_self) simp_all
  then have "sint (k + 1) = sint k + 1"
    by (simp add: sint_word_ariths)
  with lt show "((k + 1, n, body, body k s), (k, n, body, s))
      \<in> measure (\<lambda>(k, n, body, s). nat (sint n - sint k))"
    by simp
qed

declare for_int.simps [simp del]

section \<open>The pixel-address map\<close>

text \<open>
  The body of the inner loop of \<^verbatim>\<open>make_matrixmap\<close> up to the two calls of the callback:
  the values of the \<^verbatim>\<open>int\<close> variables \<^verbatim>\<open>x\<close>, \<^verbatim>\<open>y0\<close> and \<^verbatim>\<open>y1\<close>. The quotient and
  remainder are \<^verbatim>\<open>size_t\<close> values stored into \<^verbatim>\<open>int\<close> (\<open>ucast\<close>); in the expressions
  that mix them with \<^verbatim>\<open>size_t\<close> operands they are converted back (\<open>scast\<close>), the
  arithmetic is that of \<^verbatim>\<open>size_t\<close>, and the result is stored into \<^verbatim>\<open>int\<close> again.
\<close>

definition matrixmap_coords ::
    "size_t \<Rightarrow> size_t \<Rightarrow> size_t \<Rightarrow> bool \<Rightarrow> size_t \<Rightarrow> size_t \<Rightarrow> c_int \<times> c_int \<times> c_int" where
  "matrixmap_coords width panel_height half_panel_height serpentine i j =
     (let panel_no = (ucast (j div width) :: c_int);
          panel_idx = (ucast (j mod width) :: c_int)
      in if serpentine \<and> int_mod panel_no 2 \<noteq> 0
         then (ucast (width - scast panel_idx - 1),
               ucast (scast (panel_no + 1) * panel_height - i - 1),
               ucast (scast (panel_no + 1) * panel_height - i - half_panel_height - 1))
         else (panel_idx,
               ucast (scast panel_no * panel_height + i),
               ucast (scast panel_no * panel_height + i + half_panel_height)))"

text \<open>
  \<^verbatim>\<open>make_matrixmap\<close>. The literal \<^verbatim>\<open>2\<close> is an \<^verbatim>\<open>int\<close>, so \<^verbatim>\<open>2 << n_addr_lines\<close> is a
  32-bit shift whose result is sign-extended to \<^verbatim>\<open>size_t\<close>; \<^verbatim>\<open>1u << n_addr_lines\<close> is an
  unsigned 32-bit shift. The callback takes the canvas size as \<^verbatim>\<open>int\<close>. The height is
  checked first, then the vector reserves \<^verbatim>\<open>width * height\<close> elements, a \<^verbatim>\<open>size_t\<close>
  product, and the loops append two elements for each row-select state and column.
  With 31 address lines the panel height is 0 and C++ leaves the remainder undefined;
  from 32 on it leaves the shifts undefined.
\<close>

definition make_matrixmap ::
    "size_t \<Rightarrow> size_t \<Rightarrow> size_t \<Rightarrow> bool \<Rightarrow> (c_int \<Rightarrow> c_int \<Rightarrow> c_int \<Rightarrow> c_int \<Rightarrow> c_int)
      \<Rightarrow> error + matrix_map" where
  "make_matrixmap width height n_addr_lines serpentine cb =
     (let panel_height = (scast (push_bit (unat n_addr_lines mod 32) (2 :: c_int)) :: size_t)
      in if height mod panel_height \<noteq> 0 then Inl range_error
         else
           let half_panel_height =
                 (ucast (push_bit (unat n_addr_lines mod 32) (1 :: uint32_t)) :: size_t);
               v_panels = height div panel_height;
               pixels_across = width * v_panels
           in case reserve (width * height) [] of
                Inl e \<Rightarrow> Inl e
              | Inr result \<Rightarrow>
                  for_size_t 0 half_panel_height (\<lambda>i result.
                    for_size_t 0 pixels_across (\<lambda>j result.
                      let (x, y0, y1) =
                            matrixmap_coords width panel_height half_panel_height serpentine i j
                      in case push_back (cb (ucast width) (ucast height) x y0) result of
                           Inl e \<Rightarrow> Inl e
                         | Inr result \<Rightarrow> push_back (cb (ucast width) (ucast height) x y1) result)
                      result) result)"

section \<open>Bit-plane schedules\<close>

record schedule_entry =
  shift :: uint32_t
  active_time :: uint32_t

type_synonym schedule = "schedule_entry list"
type_synonym schedule_sequence = "schedule list"

text \<open>
  \<^verbatim>\<open>while (max_count < pixels_across) max_count <<= 1;\<close> on \<^verbatim>\<open>size_t\<close>. Doubling wraps
  to 0 after \<open>2 ^ 63\<close>, and then the loop cannot end: the result is \<open>None\<close>, no value is
  returned.
\<close>

partial_function (option) grow_max_count :: "size_t \<Rightarrow> size_t \<Rightarrow> size_t option" where
  "grow_max_count max_count pixels_across =
     (if max_count < pixels_across then grow_max_count (push_bit 1 max_count) pixels_across
      else Some max_count)"

declare grow_max_count.simps [code]

text \<open>
  \<^verbatim>\<open>make_simple_schedule\<close>. \<open>None\<close>: the call does not return. \<open>Some (Inl e)\<close>: it
  throws. The entry is built from \<^verbatim>\<open>10 - i\<close> (an \<^verbatim>\<open>int\<close>) and \<^verbatim>\<open>max_count >> i\<close>
  (a \<^verbatim>\<open>size_t\<close>), both stored into \<^verbatim>\<open>uint32_t\<close> fields.
\<close>

definition make_simple_schedule :: "c_int \<Rightarrow> size_t \<Rightarrow> (error + schedule_sequence) option" where
  "make_simple_schedule n_planes pixels_across =
     (if n_planes <s 1 \<or> 10 <s n_planes then Some (Inl range_error)
      else
        case grow_max_count (scast (push_bit (nat (sint n_planes)) (1 :: c_int))) pixels_across of
          None \<Rightarrow> None
        | Some max_count \<Rightarrow>
            Some (Inr [for_int 0 n_planes (\<lambda>i result.
              result @ [\<lparr>shift = 10 - i,
                         active_time = ucast (drop_bit (nat (sint i)) max_count)\<rparr>]) []]))"

text \<open>
  The loop of \<^verbatim>\<open>make_temporal_dither_schedule\<close>: \<^verbatim>\<open>max_count\<close> and \<^verbatim>\<open>temporal_count\<close> are
  \<^verbatim>\<open>uint32_t\<close>, the comparison with \<^verbatim>\<open>pixels_across\<close> is made in \<^verbatim>\<open>size_t\<close>.
\<close>

partial_function (option) grow_counts ::
    "uint32_t \<Rightarrow> uint32_t \<Rightarrow> size_t \<Rightarrow> (uint32_t \<times> uint32_t) option" where
  "grow_counts max_count temporal_count pixels_across =
     (if ucast max_count < pixels_across
      then grow_counts (push_bit 1 max_count) (push_bit 1 temporal_count) pixels_across
      else Some (max_count, temporal_count))"

declare grow_counts.simps [code]

text \<open>The lambda \<^verbatim>\<open>add_sched\<close>, with the two vectors it captures by reference.\<close>

definition add_sched :: "schedule \<Rightarrow> schedule_sequence \<Rightarrow> c_int \<Rightarrow> c_int \<Rightarrow> schedule_sequence" where
  "add_sched base_sched result plane count =
     result @ [base_sched @ [\<lparr>shift = 10 - plane, active_time = count\<rparr>]]"

text \<open>
  \<^verbatim>\<open>make_temporal_dither_schedule\<close>, its checks in the order of the source. (The
  \<^verbatim>\<open>printf\<close> of the three plane counts is not part of the result.)
\<close>

definition make_temporal_dither_schedule ::
    "c_int \<Rightarrow> size_t \<Rightarrow> c_int \<Rightarrow> (error + schedule_sequence) option" where
  "make_temporal_dither_schedule n_planes pixels_across n_temporal_planes =
     (if n_planes <s 1 \<or> 10 <s n_planes then Some (Inl range_error)
      else if n_temporal_planes = 0 then make_simple_schedule n_planes pixels_across
      else if n_planes \<le>s n_temporal_planes then Some (Inl range_error)
      else if n_temporal_planes \<noteq> 2 \<and> n_temporal_planes \<noteq> 4 then Some (Inl range_error)
      else
        let n_real_planes = n_planes - n_temporal_planes
        in case grow_counts (push_bit (nat (sint n_real_planes)) 2) 1 pixels_across of
             None \<Rightarrow> None
           | Some (max_count, temporal_count) \<Rightarrow>
               let base_sched = for_int 0 n_real_planes (\<lambda>j sched.
                     sched @ [\<lparr>shift = 10 - j,
                               active_time = drop_bit (nat (sint j)) max_count\<rparr>]) []
               in Some (Inr (for_int 0 n_temporal_planes (\<lambda>i result.
                     add_sched base_sched result (n_real_planes + i)
                       (push_bit (nat (sint i)) temporal_count)) [])))"

section \<open>The geometry\<close>

record matrix_geometry =
  mg_pixels_across :: size_t
  mg_n_addr_lines :: size_t
  mg_n_lanes :: size_t
  mg_width :: size_t
  mg_height :: size_t
  mg_map :: matrix_map
  mg_schedules :: schedule_sequence

text \<open>
  The constructor that takes the map and the schedules. \<^verbatim>\<open>map.size()\<close> is the length of
  the vector; it is compared with a \<^verbatim>\<open>size_t\<close> product, computed modulo \<open>2 ^ 64\<close>.
  \<^verbatim>\<open>n_lanes << n_addr_lines\<close> is a 64-bit shift, defined by C++ for fewer than 64 address
  lines.
\<close>

definition matrix_geometry_schedules ::
    "size_t \<Rightarrow> size_t \<Rightarrow> size_t \<Rightarrow> size_t \<Rightarrow> matrix_map \<Rightarrow> size_t \<Rightarrow> schedule_sequence
      \<Rightarrow> error + matrix_geometry" where
  "matrix_geometry_schedules pixels_across n_addr_lines width height m n_lanes schedules =
     (let pixels_down = push_bit (unat n_addr_lines mod 64) n_lanes
      in if length m \<noteq> unat (pixels_down * pixels_across) then Inl range_error
         else Inr \<lparr>mg_pixels_across = pixels_across, mg_n_addr_lines = n_addr_lines,
                   mg_n_lanes = n_lanes, mg_width = width, mg_height = height,
                   mg_map = m, mg_schedules = schedules\<rparr>)"

text \<open>
  The constructor that takes the plane count and \<^verbatim>\<open>n_temporal_dither\<close>. It passes
  \<^verbatim>\<open>(n_planes, n_temporal_dither, pixels_across)\<close> to
  \<^verbatim>\<open>make_temporal_dither_schedule(int n_planes, size_t pixels_across, int n_temporal_planes)\<close>:
  \<^verbatim>\<open>n_temporal_dither\<close> arrives as \<^verbatim>\<open>pixels_across\<close>, and \<^verbatim>\<open>pixels_across\<close>, converted to
  \<^verbatim>\<open>int\<close>, as \<^verbatim>\<open>n_temporal_planes\<close>.
\<close>

definition matrix_geometry_planes ::
    "size_t \<Rightarrow> size_t \<Rightarrow> c_int \<Rightarrow> size_t \<Rightarrow> size_t \<Rightarrow> matrix_map \<Rightarrow> size_t \<Rightarrow> size_t
      \<Rightarrow> (error + matrix_geometry) option" where
  "matrix_geometry_planes pixels_across n_addr_lines n_planes width height m n_lanes
       n_temporal_dither =
     (case make_temporal_dither_schedule n_planes n_temporal_dither (ucast pixels_across) of
        None \<Rightarrow> None
      | Some (Inl e) \<Rightarrow> Some (Inl e)
      | Some (Inr schedules) \<Rightarrow>
          Some (matrix_geometry_schedules pixels_across n_addr_lines width height m n_lanes
                  schedules))"

text \<open>
  The constructor that takes the serpentine flag and the callback: it builds the map and
  delegates with two lanes and the default \<^verbatim>\<open>n_temporal_dither = 0\<close>.
\<close>

definition matrix_geometry_cb ::
    "size_t \<Rightarrow> size_t \<Rightarrow> c_int \<Rightarrow> size_t \<Rightarrow> size_t \<Rightarrow> bool
      \<Rightarrow> (c_int \<Rightarrow> c_int \<Rightarrow> c_int \<Rightarrow> c_int \<Rightarrow> c_int) \<Rightarrow> (error + matrix_geometry) option" where
  "matrix_geometry_cb pixels_across n_addr_lines n_planes width height serpentine cb =
     (case make_matrixmap width height n_addr_lines serpentine cb of
        Inl e \<Rightarrow> Some (Inl e)
      | Inr m \<Rightarrow> matrix_geometry_planes pixels_across n_addr_lines n_planes width height m 2 0)"

section \<open>Facts about the machine integers\<close>

lemma sint32_range: "- (2 ^ 31) \<le> sint (x :: c_int) \<and> sint x < 2 ^ 31"
  using sint_range_size [of x] by (simp add: word_size)

lemma sint32_of_int: "- (2 ^ 31) \<le> k \<Longrightarrow> k < 2 ^ 31 \<Longrightarrow> sint (word_of_int k :: c_int) = k"
  by (simp add: sint_sbintrunc' signed_take_bit_int_eq_self)

lemma take_bit_32_cong: "take_bit 64 (x :: int) = take_bit 64 y \<Longrightarrow> take_bit 32 x = take_bit 32 y"
proof -
  assume "take_bit 64 x = take_bit 64 y"
  then have "take_bit 32 (take_bit 64 x) = take_bit 32 (take_bit 64 y)"
    by simp
  then show ?thesis
    by simp
qed

lemma ucast_of_nat_down: "(ucast (of_nat n :: size_t) :: c_int) = of_nat n"
  by (simp add: unsigned_of_nat word_of_nat_eq_iff)

lemma ucast_of_int_down: "(ucast (of_int k :: size_t) :: c_int) = of_int k"
  by (simp add: unsigned_of_int word_of_int_eq_iff take_bit_of_nat)

lemma ucast_down_add: "(ucast (a + b :: size_t) :: c_int) = ucast a + ucast b"
  by transfer (simp, rule take_bit_32_cong, simp add: take_bit_add)

lemma ucast_down_diff: "(ucast (a - b :: size_t) :: c_int) = ucast a - ucast b"
  by transfer (simp, rule take_bit_32_cong, simp add: take_bit_diff)

lemma ucast_down_mult: "(ucast (a * b :: size_t) :: c_int) = ucast a * ucast b"
  by transfer (simp, rule take_bit_32_cong, simp add: take_bit_mult)

lemma ucast_scast_ucast: "(ucast (scast (a :: c_int) :: size_t) :: c_int) = a"
  by transfer (simp add: take_bit_signed_take_bit)

lemma unat_pow64: "k < 64 \<Longrightarrow> unat (2 ^ k :: size_t) = 2 ^ k"
proof -
  assume k: "k < 64"
  have "unat (2 ^ k :: size_t) = unat (of_nat (2 ^ k) :: size_t)"
    by simp
  also have "\<dots> = 2 ^ k mod 2 ^ LENGTH(64)"
    by (simp only: unat_of_nat)
  also have "\<dots> = 2 ^ k"
    using k by (intro mod_less power_strict_increasing) simp_all
  finally show ?thesis .
qed

lemma unat_pow32: "k < 32 \<Longrightarrow> unat (2 ^ k :: uint32_t) = 2 ^ k"
proof -
  assume k: "k < 32"
  have "unat (2 ^ k :: uint32_t) = unat (of_nat (2 ^ k) :: uint32_t)"
    by simp
  also have "\<dots> = 2 ^ k mod 2 ^ LENGTH(32)"
    by (simp only: unat_of_nat)
  also have "\<dots> = 2 ^ k"
    using k by (intro mod_less power_strict_increasing) simp_all
  finally show ?thesis .
qed

lemma of_nat_nat_sint: "0 \<le> sint (k :: c_int) \<Longrightarrow> of_nat (nat (sint k)) = k"
  by (simp add: of_nat_nat)

lemma sint_add1: "k <s n \<Longrightarrow> sint (k + 1 :: c_int) = sint k + 1"
proof -
  assume "k <s n"
  then have lt: "sint k < sint n"
    by (simp add: word_sless_alt)
  have "sint n < 2 ^ 31" "- (2 ^ 31) \<le> sint k"
    using sint32_range [of n] sint32_range [of k] by simp_all
  with lt have "signed_take_bit 31 (sint k + 1) = sint k + 1"
    by (intro signed_take_bit_int_eq_self) simp_all
  then show "sint (k + 1) = sint k + 1"
    by (simp add: sint_word_ariths)
qed

lemma sint_of_nat32: "n < 2 ^ 31 \<Longrightarrow> sint (of_nat n :: c_int) = int n"
  using sint32_of_int [of "int n"] by simp

section \<open>The counting loops as maps\<close>

lemma for_int_fold:
  "0 \<le> sint k \<Longrightarrow> sint k \<le> sint n \<Longrightarrow>
   for_int k n body s = fold body (map of_nat [nat (sint k)..<nat (sint n)]) s"
proof (induction k n body s rule: for_int.induct)
  case (1 k n body s)
  show ?case
  proof (cases "k <s n")
    case True
    then have lt: "sint k < sint n"
      by (simp add: word_sless_alt)
    have s1: "sint (k + 1) = sint k + 1"
      using True by (rule sint_add1)
    have "for_int k n body s = for_int (k + 1) n body (body k s)"
      using True by (subst for_int.simps) (simp only: if_True)
    also have "\<dots> = fold body (map of_nat [nat (sint (k + 1))..<nat (sint n)]) (body k s)"
    proof (rule "1.IH" [OF True])
      show "0 \<le> sint (k + 1)" using "1.prems" s1 by simp
      show "sint (k + 1) \<le> sint n" using lt s1 by simp
    qed
    also have "\<dots> = fold body (map of_nat [nat (sint k)..<nat (sint n)]) s"
    proof -
      have "nat (sint (k + 1)) = Suc (nat (sint k))"
        using "1.prems" s1 by simp
      moreover have "nat (sint k) < nat (sint n)"
        using lt "1.prems" by simp
      ultimately have "[nat (sint k)..<nat (sint n)] = nat (sint k) # [nat (sint (k + 1))..<nat (sint n)]"
        by (simp only: upt_conv_Cons)
      then show ?thesis
        using "1.prems" by (simp only: list.map fold.simps o_apply of_nat_nat_sint)
    qed
    finally show ?thesis .
  next
    case False
    then have "sint n \<le> sint k"
      by (simp add: word_sless_alt)
    with "1.prems" have "sint k = sint n"
      by simp
    with False show ?thesis
      by (subst for_int.simps) (simp only: if_False upt_rec [of "nat (sint n)"] list.map fold.simps id_apply, simp)
  qed
qed

lemma fold_append_single: "fold (\<lambda>i r. r @ [f i]) xs s = s @ map f xs"
  by (induction xs arbitrary: s) simp_all

lemma for_int_map:
  assumes "0 \<le>s n"
  shows "for_int 0 n (\<lambda>i r. r @ [f i]) [] = map (\<lambda>i. f (of_nat i)) [0..<nat (sint n)]"
proof -
  have n: "sint (0 :: c_int) \<le> sint n"
    using assms by (simp only: word_sle_eq)
  have "for_int 0 n (\<lambda>i r. r @ [f i]) []
      = fold (\<lambda>i r. r @ [f i]) (map of_nat [nat (sint (0 :: c_int))..<nat (sint n)]) []"
    using n by (intro for_int_fold) simp_all
  also have "\<dots> = map f (map of_nat [0..<nat (sint n)])"
    by (simp only: fold_append_single append_Nil sint_0 nat_zero_as_int [symmetric]) 
  finally show ?thesis
    by (simp only: map_map comp_def)
qed

section \<open>Orientation transforms: the custom panel layout and the clockwise rotation\<close>

text \<open>
  Claim C2 (as amended). On the 192 by 64 canvas the custom transform sends \<open>(10, 10)\<close> to
  panel column \<open>2 - 0 = 2\<close> of the top row, that is to \<open>x = 2 * 64 + 10 = 138\<close>, and
  returns \<open>138 + 192 * 10 = 2058\<close>; it sends \<open>(10, 40)\<close>, in the bottom row, to
  \<open>10 + 192 * 40 = 7690\<close>.
\<close>

theorem custom_panel_orientation_scenario:
  "custom_panel_orientation 192 64 10 10 = 2058 \<and> custom_panel_orientation 192 64 10 40 = 7690"
  by (simp add: custom_panel_orientation_def int_div_def int_mod_def
        signed_divide_int_def signed_modulo_int_def)

text \<open>
  Claim C2 as stated gives offset 2090 (new coordinates \<open>(170, 10)\<close>) for \<open>(10, 10)\<close>; the
  function does not return it.
\<close>

theorem custom_panel_orientation_not_2090:
  "custom_panel_orientation 192 64 10 10 \<noteq> 2090"
  by (simp add: custom_panel_orientation_def int_div_def int_mod_def
        signed_divide_int_def signed_modulo_int_def)

lemma orientation_cw_exact:
  assumes "- (2 ^ 31) \<le> (sint y - sint height - 1) + sint height * sint x"
      and "(sint y - sint height - 1) + sint height * sint x < 2 ^ 31"
    shows "sint (orientation_cw width height x y)
         = (sint y - sint height - 1) + sint height * sint x"
proof -
  have "orientation_cw width height x y
      = word_of_int ((sint y - sint height - 1) + sint height * sint x)"
    by (simp add: orientation_cw_def orientation_normal_def)
  then show ?thesis
    using assms by (simp only: sint32_of_int)
qed

text \<open>
  Claim C10. For every in-bounds input (\<open>0 \<le> x < width\<close>, \<open>0 \<le> y < height\<close>) the
  clockwise transform returns \<open>(y - height - 1) + height * x\<close>: as an \<^verbatim>\<open>int\<close> expression,
  and as a number whenever that number fits an \<^verbatim>\<open>int\<close>. For \<open>x = 0\<close> it always fits, it
  is \<open>y - height - 1\<close>, which is negative and so outside the offsets
  \<open>[0, width * height)\<close> of the framebuffer.
\<close>

theorem orientation_cw_offset:
  assumes "0 \<le>s x" and "x <s width" and "0 \<le>s y" and "y <s height"
  shows "orientation_cw width height x y = (y - height - 1) + height * x
       \<and> (- (2 ^ 31) \<le> (sint y - sint height - 1) + sint height * sint x
            \<and> (sint y - sint height - 1) + sint height * sint x < 2 ^ 31
          \<longrightarrow> sint (orientation_cw width height x y)
              = (sint y - sint height - 1) + sint height * sint x)
       \<and> (x = 0 \<longrightarrow> sint (orientation_cw width height x y) = sint y - sint height - 1
              \<and> sint (orientation_cw width height x y) < 0
              \<and> \<not> (0 \<le> sint (orientation_cw width height x y)
                    \<and> sint (orientation_cw width height x y) < sint width * sint height))"
proof (intro conjI impI)
  show "orientation_cw width height x y = (y - height - 1) + height * x"
    by (simp add: orientation_cw_def orientation_normal_def)
next
  assume "- (2 ^ 31) \<le> (sint y - sint height - 1) + sint height * sint x
            \<and> (sint y - sint height - 1) + sint height * sint x < 2 ^ 31"
  then show "sint (orientation_cw width height x y)
              = (sint y - sint height - 1) + sint height * sint x"
    using orientation_cw_exact by blast
next
  assume x0: "x = 0"
  have y: "0 \<le> sint y" "sint y < sint height"
    using assms by (simp_all add: word_sle_eq word_sless_alt)
  have h: "sint height < 2 ^ 31"
    using sint32_range [of height] by simp
  have e: "sint (orientation_cw width height x y) = sint y - sint height - 1"
    using orientation_cw_exact [of y height x width] x0 y h by simp
  show "sint (orientation_cw width height x y) = sint y - sint height - 1"
    by (fact e)
  show neg: "sint (orientation_cw width height x y) < 0"
    using e y by simp
  show "\<not> (0 \<le> sint (orientation_cw width height x y)
                    \<and> sint (orientation_cw width height x y) < sint width * sint height)"
    using neg by simp
qed

theorem orientation_cw_offset_witness:
  "(0 :: c_int) \<le>s 0 \<and> (0 :: c_int) <s 64 \<and> (0 :: c_int) \<le>s 5 \<and> (5 :: c_int) <s 32
   \<and> orientation_cw 64 32 0 5 = (5 - 32 - 1) + 32 * 0
   \<and> sint (orientation_cw 64 32 0 5) = - 28
   \<and> sint (orientation_cw 64 32 0 5) < 0"
proof -
  have h: "(0 :: c_int) \<le>s 0" "(0 :: c_int) <s 64" "(0 :: c_int) \<le>s 5" "(5 :: c_int) <s 32"
    by (simp_all add: word_sle_eq word_sless_alt)
  from orientation_cw_offset [OF h] h show ?thesis
    by simp
qed

section \<open>Range errors of the schedule generators\<close>



section \<open>The simple schedule\<close>

lemma push_bit1_pow64: "push_bit 1 (2 ^ k :: size_t) = 2 ^ Suc k"
  by (simp add: push_bit_eq_mult)

lemma pow64_less_iff: "k < 64 \<Longrightarrow> (2 ^ k :: size_t) < p \<longleftrightarrow> 2 ^ k < unat p"
  by (simp only: word_less_nat_alt unat_pow64)

lemma grow_max_count_pow:
  assumes "k \<le> 63" and "unat p \<le> 2 ^ 63"
  shows "\<exists>m. k \<le> m \<and> m \<le> 63 \<and> unat p \<le> 2 ^ m
           \<and> (\<forall>m'. k \<le> m' \<and> m' < m \<longrightarrow> 2 ^ m' < unat p)
           \<and> grow_max_count (2 ^ k) p = Some (2 ^ m)"
  using assms
proof (induction "63 - k" arbitrary: k)
  case 0
  then have k: "k = 63"
    by simp
  have "(2 ^ k :: size_t) < p \<longleftrightarrow> 2 ^ k < unat p"
    using k by (intro pow64_less_iff) simp
  moreover have "\<not> 2 ^ k < unat p"
    using "0.prems"(2) k by (simp only: not_less)
  ultimately have "\<not> (2 ^ k :: size_t) < p"
    by blast
  then have "grow_max_count (2 ^ k) p = Some (2 ^ k)"
    by (subst grow_max_count.simps) simp
  with "0.prems" k show ?case
    by (intro exI [of _ k]) simp
next
  case (Suc d)
  then have k: "k < 63"
    by simp
  have iff: "(2 ^ k :: size_t) < p \<longleftrightarrow> 2 ^ k < unat p"
    using k by (intro pow64_less_iff) simp
  show ?case
  proof (cases "(2 ^ k :: size_t) < p")
    case True
    then have lt: "2 ^ k < unat p"
      using iff by blast
    have "d = 63 - Suc k" "Suc k \<le> 63"
      using Suc.hyps k by simp_all
    from Suc.hyps(1) [OF this Suc.prems(2)]
    obtain m where m: "Suc k \<le> m" "m \<le> 63" "unat p \<le> 2 ^ m"
        "\<forall>m'. Suc k \<le> m' \<and> m' < m \<longrightarrow> 2 ^ m' < unat p"
        "grow_max_count (2 ^ Suc k) p = Some (2 ^ m)"
      by blast
    have "grow_max_count (2 ^ k) p = grow_max_count (push_bit 1 (2 ^ k)) p"
      using True by (subst grow_max_count.simps) simp
    then have r: "grow_max_count (2 ^ k) p = Some (2 ^ m)"
      using m(5) by (simp only: push_bit1_pow64)
    have "\<forall>m'. k \<le> m' \<and> m' < m \<longrightarrow> 2 ^ m' < unat p"
    proof (intro allI impI)
      fix m'
      assume "k \<le> m' \<and> m' < m"
      then consider "m' = k" | "Suc k \<le> m' \<and> m' < m"
        by linarith
      then show "2 ^ m' < unat p"
        using lt m(4) by cases simp_all
    qed
    with m r show ?thesis
      by (intro exI [of _ m]) simp
  next
    case False
    then have le: "unat p \<le> 2 ^ k"
      using iff by (simp only: not_less)
    have "grow_max_count (2 ^ k) p = Some (2 ^ k)"
      using False by (subst grow_max_count.simps) simp
    with le k show ?thesis
      by (intro exI [of _ k]) simp
  qed
qed

lemma doubling_closed64:
  assumes "m = 0 \<or> (\<exists>k\<le>63. m = (2 ^ k :: size_t))"
  shows "push_bit 1 m = 0 \<or> (\<exists>k\<le>63. push_bit 1 m = 2 ^ k)"
proof -
  from assms consider "m = 0" | k where "k < 63" "m = 2 ^ k" | "m = 2 ^ 63"
    by (metis le_neq_implies_less)
  then show ?thesis
  proof cases
    case 1
    then show ?thesis by simp
  next
    case 2
    then have "push_bit 1 m = 2 ^ Suc k" "Suc k \<le> 63"
      by (simp_all only: push_bit1_pow64 Suc_leI)
    then show ?thesis by blast
  next
    case 3
    then have "push_bit 1 m = 0"
      by (simp add: push_bit_eq_mult)
    then show ?thesis by blast
  qed
qed

lemma doubling_bound64:
  assumes "m = 0 \<or> (\<exists>k\<le>63. m = (2 ^ k :: size_t))"
  shows "unat m \<le> 2 ^ 63"
proof -
  from assms consider "m = 0" | k where "k \<le> 63" "m = 2 ^ k"
    by blast
  then show ?thesis
  proof cases
    case 1
    then show ?thesis by simp
  next
    case 2
    then have "unat m = 2 ^ k"
      by (simp only: unat_pow64)
    also have "\<dots> \<le> 2 ^ 63"
      using 2(1) by (intro power_increasing) simp_all
    finally show ?thesis .
  qed
qed

lemma grow_max_count_Some_bound:
  assumes "grow_max_count m p = Some y"
  shows "\<not> (2 ^ 63 < unat p \<and> (m = 0 \<or> (\<exists>k\<le>63. m = 2 ^ k)))"
proof -
  have step: "\<not> (2 ^ 63 < unat p \<and> (m = 0 \<or> (\<exists>k\<le>63. m = 2 ^ k)))"
    if IH: "\<And>m p y. f m p = Some y \<Longrightarrow> \<not> (2 ^ 63 < unat p \<and> (m = 0 \<or> (\<exists>k\<le>63. m = 2 ^ k)))"
      and eq: "(if m < p then f (push_bit 1 m) p else Some m) = Some y"
    for f and m p y :: size_t
  proof
    assume a: "2 ^ 63 < unat p \<and> (m = 0 \<or> (\<exists>k\<le>63. m = 2 ^ k))"
    then have "unat m \<le> 2 ^ 63" and "2 ^ 63 < unat p"
      using doubling_bound64 by blast+
    then have "unat m < unat p"
      by (rule le_less_trans)
    then have "m < p"
      by (simp only: word_less_nat_alt)
    with eq have "f (push_bit 1 m) p = Some y"
      by simp
    then have "\<not> (2 ^ 63 < unat p \<and> (push_bit 1 m = 0 \<or> (\<exists>k\<le>63. push_bit 1 m = 2 ^ k)))"
      by (rule IH)
    then show False
      using a doubling_closed64 [of m] by blast
  qed
  show ?thesis
    by (rule grow_max_count.raw_induct
        [where P = "\<lambda>m p y. \<not> (2 ^ 63 < unat p \<and> (m = 0 \<or> (\<exists>k\<le>63. m = 2 ^ k)))",
         OF step assms])
qed

lemma grow_max_count_diverges:
  assumes "2 ^ 63 < unat p" and "k \<le> 63"
  shows "grow_max_count (2 ^ k) p = None"
proof (cases "grow_max_count (2 ^ k) p")
  case None
  then show ?thesis .
next
  case (Some y)
  from grow_max_count_Some_bound [OF this] assms show ?thesis
    by blast
qed

lemma sint_pow32: "k < 31 \<Longrightarrow> sint (2 ^ k :: c_int) = 2 ^ k"
proof -
  assume k: "k < 31"
  have "(2 :: nat) ^ k < 2 ^ 31"
    using k by (intro power_strict_increasing) simp_all
  then have "sint (of_nat (2 ^ k) :: c_int) = int (2 ^ k)"
    by (rule sint_of_nat32)
  then show ?thesis
    by simp
qed

lemma scast_push_bit_1: "k < 31 \<Longrightarrow> (scast (push_bit k (1 :: c_int)) :: size_t) = 2 ^ k"
proof -
  assume k: "k < 31"
  have "(scast (push_bit k (1 :: c_int)) :: size_t) = word_of_int (sint (2 ^ k :: c_int))"
    by (simp only: scast_eq push_bit_of_1)
  also have "\<dots> = 2 ^ k"
    using k by (simp only: sint_pow32) simp
  finally show ?thesis .
qed

lemma nat_sint_of_nat: "i < 2 ^ 31 \<Longrightarrow> nat (sint (of_nat i :: c_int)) = i"
  by (simp only: sint_of_nat32 nat_int)

lemma drop_bit_pow64: "m \<le> 63 \<Longrightarrow> drop_bit i (2 ^ m :: size_t) = of_nat (2 ^ m div 2 ^ i)"
proof -
  assume m: "m \<le> 63"
  have "drop_bit i (2 ^ m :: size_t) = of_nat (unat (drop_bit i (2 ^ m :: size_t)))"
    by simp
  also have "unat (drop_bit i (2 ^ m :: size_t)) = drop_bit i (unat (2 ^ m :: size_t))"
    by (rule unat_drop_bit_eq)
  also have "unat (2 ^ m :: size_t) = 2 ^ m"
    using m by (intro unat_pow64) simp
  finally show ?thesis
    by (simp only: drop_bit_eq_div)
qed

lemma simple_entry_value:
  assumes "i < 2 ^ 31" and "m \<le> 63"
  shows "(ucast (drop_bit (nat (sint (of_nat i :: c_int))) (2 ^ m :: size_t)) :: uint32_t)
       = of_nat (2 ^ m div 2 ^ i)"
  using assms by (simp only: nat_sint_of_nat drop_bit_pow64 ucast_of_nat_down)

lemma make_simple_schedule_pow:
  assumes "1 \<le>s n_planes" and "n_planes \<le>s 10"
      and "grow_max_count (2 ^ nat (sint n_planes)) pixels_across = Some (2 ^ m)" and "m \<le> 63"
  shows "make_simple_schedule n_planes pixels_across =
         Some (Inr [map (\<lambda>i. \<lparr>shift = 10 - of_nat i, active_time = of_nat (2 ^ m div 2 ^ i)\<rparr>)
                      [0..<nat (sint n_planes)]])"
proof -
  have n: "1 \<le> sint n_planes" "sint n_planes \<le> 10"
    using assms(1,2) by (simp_all add: word_sle_eq)
  then have ok: "\<not> (n_planes <s 1 \<or> 10 <s n_planes)" "0 \<le>s n_planes"
    by (simp_all add: word_sless_alt word_sle_eq)
  have init: "(scast (push_bit (nat (sint n_planes)) (1 :: c_int)) :: size_t) = 2 ^ nat (sint n_planes)"
    using n by (intro scast_push_bit_1) simp
  have entries: "for_int 0 n_planes (\<lambda>i result.
              result @ [\<lparr>shift = 10 - i,
                         active_time = ucast (drop_bit (nat (sint i)) (2 ^ m :: size_t))\<rparr>]) []
      = map (\<lambda>i. \<lparr>shift = 10 - of_nat i, active_time = of_nat (2 ^ m div 2 ^ i)\<rparr>)
          [0..<nat (sint n_planes)]"
  proof -
    have "for_int 0 n_planes (\<lambda>i result.
              result @ [\<lparr>shift = 10 - i,
                         active_time = ucast (drop_bit (nat (sint i)) (2 ^ m :: size_t))\<rparr>]) []
        = map (\<lambda>i. \<lparr>shift = 10 - of_nat i,
                      active_time = ucast (drop_bit (nat (sint (of_nat i :: c_int))) (2 ^ m :: size_t))\<rparr>)
            [0..<nat (sint n_planes)]"
      using ok(2) by (rule for_int_map)
    also have "\<dots> = map (\<lambda>i. \<lparr>shift = 10 - of_nat i, active_time = of_nat (2 ^ m div 2 ^ i)\<rparr>)
          [0..<nat (sint n_planes)]"
    proof (rule map_cong [OF refl])
      fix i
      assume "i \<in> set [0..<nat (sint n_planes)]"
      then have "i < 2 ^ 31"
        using n by simp
      then show "\<lparr>shift = 10 - of_nat i,
                    active_time = ucast (drop_bit (nat (sint (of_nat i :: c_int))) (2 ^ m :: size_t))\<rparr>
               = \<lparr>shift = 10 - of_nat i, active_time = of_nat (2 ^ m div 2 ^ i)\<rparr>"
        using assms(4) by (simp only: simple_entry_value)
    qed
    finally show ?thesis .
  qed
  show ?thesis
    unfolding make_simple_schedule_def
    by (simp only: ok(1) if_False init assms(3) option.case entries)
qed

lemma unat_of_nat32: "x < 2 ^ 32 \<Longrightarrow> unat (of_nat x :: uint32_t) = x"
  by (simp add: unat_of_nat)

lemma unat_shift_field: "i \<le> 10 \<Longrightarrow> unat (10 - of_nat i :: uint32_t) = 10 - i"
proof -
  assume i: "i \<le> 10"
  then have "(10 - of_nat i :: uint32_t) = of_nat (10 - i)"
    by simp
  then show ?thesis
    using i by (simp only: unat_of_nat) simp
qed

text \<open>
  Claim C4 (as amended). For every plane count \<open>n\<close> in \<open>[1, 10]\<close> and every
  \<^verbatim>\<open>pixels_across\<close> up to \<open>2 ^ 63\<close>, \<^verbatim>\<open>make_simple_schedule\<close> returns exactly one
  schedule of \<open>n\<close> entries. \<^verbatim>\<open>max_count\<close> is \<open>2 ^ m\<close>, the first value at least
  \<^verbatim>\<open>pixels_across\<close> reached by doubling from \<open>2 ^ n\<close>. Entry \<open>i\<close> has shift \<open>10 - i\<close>
  and, as its dwell, the low 32 bits of \<open>max_count >> i\<close>. For \<^verbatim>\<open>pixels_across\<close> up to
  \<open>2 ^ 31\<close> nothing is cut off: the dwell of entry \<open>i\<close> is \<open>max_count >> i\<close>, and each
  dwell is half the one before.
\<close>

theorem make_simple_schedule_entries:
  assumes "1 \<le>s n_planes" and "n_planes \<le>s 10" and "unat pixels_across \<le> 2 ^ 63"
  shows "\<exists>m sched.
           nat (sint n_planes) \<le> m \<and> m \<le> 63 \<and> unat pixels_across \<le> 2 ^ m
         \<and> (\<forall>m'. nat (sint n_planes) \<le> m' \<and> m' < m \<longrightarrow> 2 ^ m' < unat pixels_across)
         \<and> make_simple_schedule n_planes pixels_across = Some (Inr [sched])
         \<and> sched = map (\<lambda>i. \<lparr>shift = 10 - of_nat i, active_time = of_nat (2 ^ m div 2 ^ i)\<rparr>)
                      [0..<nat (sint n_planes)]
         \<and> (\<forall>i < nat (sint n_planes). unat (shift (sched ! i)) = 10 - i)
         \<and> (unat pixels_across \<le> 2 ^ 31 \<longrightarrow>
               (\<forall>i < nat (sint n_planes). unat (active_time (sched ! i)) = 2 ^ m div 2 ^ i)
             \<and> (\<forall>i. Suc i < nat (sint n_planes) \<longrightarrow>
                   unat (active_time (sched ! Suc i)) = unat (active_time (sched ! i)) div 2))"
proof -
  define n where "n = nat (sint n_planes)"
  have n: "1 \<le> n" "n \<le> 10"
    using assms(1,2) by (simp_all add: n_def word_sle_eq)
  from grow_max_count_pow [of n pixels_across] n assms(3)
  obtain m where m: "n \<le> m" "m \<le> 63" "unat pixels_across \<le> 2 ^ m"
      "\<forall>m'. n \<le> m' \<and> m' < m \<longrightarrow> 2 ^ m' < unat pixels_across"
      "grow_max_count (2 ^ n) pixels_across = Some (2 ^ m)"
    by auto
  define sched where "sched = map (\<lambda>i. \<lparr>shift = 10 - of_nat i,
      active_time = (of_nat (2 ^ m div 2 ^ i) :: uint32_t)\<rparr>) [0..<n]"
  have res: "make_simple_schedule n_planes pixels_across = Some (Inr [sched])"
    using make_simple_schedule_pow [OF assms(1,2), of pixels_across m] m(2,5)
    by (simp only: n_def sched_def)
  have nth: "sched ! i = \<lparr>shift = 10 - of_nat i, active_time = of_nat (2 ^ m div 2 ^ i)\<rparr>"
    if "i < n" for i
    using that by (simp add: sched_def)
  have shifts: "\<forall>i < n. unat (shift (sched ! i)) = 10 - i"
    using n by (simp add: nth unat_shift_field)
  have exact: "(\<forall>i < n. unat (active_time (sched ! i)) = 2 ^ m div 2 ^ i)
      \<and> (\<forall>i. Suc i < n \<longrightarrow> unat (active_time (sched ! Suc i)) = unat (active_time (sched ! i)) div 2)"
    if small: "unat pixels_across \<le> 2 ^ 31"
  proof -
    have m31: "m \<le> 31"
    proof (rule ccontr)
      assume "\<not> m \<le> 31"
      then have "n \<le> 31 \<and> 31 < m"
        using n by simp
      then have "2 ^ 31 < unat pixels_across"
        using m(4) by blast
      with small show False
        by simp
    qed
    have lt: "(2 :: nat) ^ m div 2 ^ i < 2 ^ 32" for i
    proof -
      have "(2 :: nat) ^ m div 2 ^ i \<le> 2 ^ m"
        by (rule div_le_dividend)
      also have "\<dots> < 2 ^ 32"
        using m31 by (intro power_strict_increasing) simp_all
      finally show ?thesis .
    qed
    have a: "unat (active_time (sched ! i)) = 2 ^ m div 2 ^ i" if "i < n" for i
      using that lt [of i] by (simp only: nth schedule_entry.simps unat_of_nat32)
    have "unat (active_time (sched ! Suc i)) = unat (active_time (sched ! i)) div 2"
      if "Suc i < n" for i
    proof -
      have "(2 :: nat) ^ m div 2 ^ Suc i = 2 ^ m div (2 ^ i * 2)"
        by (simp add: mult.commute)
      also have "\<dots> = 2 ^ m div 2 ^ i div 2"
        by (rule div_mult2_eq)
      finally have "(2 :: nat) ^ m div 2 ^ Suc i = 2 ^ m div 2 ^ i div 2" .
      with that show ?thesis
        by (simp add: a)
    qed
    with a show ?thesis
      by blast
  qed
  show ?thesis
    using m(1-4) res shifts exact
    unfolding n_def [symmetric] sched_def [symmetric]
    by (intro exI [of _ m] exI [of _ sched]) (simp add: sched_def)
qed

theorem make_simple_schedule_entries_witness:
  "(1 :: c_int) \<le>s 5 \<and> (5 :: c_int) \<le>s 10 \<and> unat (192 :: size_t) \<le> 2 ^ 63
   \<and> make_simple_schedule 5 192 =
       Some (Inr [[\<lparr>shift = 10, active_time = 256\<rparr>, \<lparr>shift = 9, active_time = 128\<rparr>,
                   \<lparr>shift = 8, active_time = 64\<rparr>, \<lparr>shift = 7, active_time = 32\<rparr>,
                   \<lparr>shift = 6, active_time = 16\<rparr>]])"
proof -
  have h: "(1 :: c_int) \<le>s 5" "(5 :: c_int) \<le>s 10" "unat (192 :: size_t) \<le> 2 ^ 63"
    by (simp_all add: word_sle_eq)
  from make_simple_schedule_entries [OF h]
  obtain m sched where m: "5 \<le> m" "192 \<le> (2 :: nat) ^ m"
      "\<forall>m'. 5 \<le> m' \<and> m' < m \<longrightarrow> (2 :: nat) ^ m' < 192"
    and res: "make_simple_schedule 5 192 = Some (Inr [sched])"
    and sched: "sched = map (\<lambda>i. \<lparr>shift = 10 - of_nat i, active_time = of_nat (2 ^ m div 2 ^ i)\<rparr>)
                      [0..<5]"
    by auto
  have "m = 8"
  proof (rule ccontr)
    assume "m \<noteq> 8"
    then consider "m \<le> 7" | "8 < m"
      by linarith
    then show False
    proof cases
      case 1
      then have "(2 :: nat) ^ m \<le> 2 ^ 7"
        by (intro power_increasing) simp_all
      with m(2) show False
        by simp
    next
      case 2
      then have "5 \<le> (8 :: nat) \<and> 8 < m"
        by simp
      with m(3) have "(2 :: nat) ^ 8 < 192"
        by blast
      then show False
        by simp
    qed
  qed
  with sched have "sched = [\<lparr>shift = 10, active_time = 256\<rparr>, \<lparr>shift = 9, active_time = 128\<rparr>,
                   \<lparr>shift = 8, active_time = 64\<rparr>, \<lparr>shift = 7, active_time = 32\<rparr>,
                   \<lparr>shift = 6, active_time = 16\<rparr>]"
    by (simp add: upt_rec)
  with res h show ?thesis
    by simp
qed

text \<open>
  Claim C4 as stated covers every \<^verbatim>\<open>pixels_across\<close>. For one plane and
  \<^verbatim>\<open>pixels_across\<close> \<open>= 2 ^ 32\<close>, \<^verbatim>\<open>max_count\<close> is \<open>2 ^ 32\<close> and the claim gives the
  single entry the dwell \<open>max_count >> 0 = 2 ^ 32\<close>; the \<^verbatim>\<open>uint32_t\<close> field holds 0.
\<close>

theorem make_simple_schedule_dwell_truncated:
  "make_simple_schedule 1 (2 ^ 32) = Some (Inr [[\<lparr>shift = 10, active_time = 0\<rparr>]])"
  by code_simp

text \<open>
  Above \<open>2 ^ 63\<close> no doubling of the 64-bit \<^verbatim>\<open>max_count\<close> reaches \<^verbatim>\<open>pixels_across\<close>:
  \<^verbatim>\<open>max_count\<close> wraps to 0 and the loop never ends, so the call returns nothing.
\<close>

lemma make_simple_schedule_no_return:
  assumes "1 \<le>s n_planes" and "n_planes \<le>s 10" and "2 ^ 63 < unat pixels_across"
  shows "make_simple_schedule n_planes pixels_across = None"
proof -
  have n: "1 \<le> sint n_planes" "sint n_planes \<le> 10"
    using assms(1,2) by (simp_all add: word_sle_eq)
  then have ok: "\<not> (n_planes <s 1 \<or> 10 <s n_planes)"
    by (simp add: word_sless_alt)
  have init: "(scast (push_bit (nat (sint n_planes)) (1 :: c_int)) :: size_t) = 2 ^ nat (sint n_planes)"
    using n by (intro scast_push_bit_1) simp
  have "grow_max_count (2 ^ nat (sint n_planes)) pixels_across = None"
    using assms(3) n by (intro grow_max_count_diverges) simp_all
  then show ?thesis
    unfolding make_simple_schedule_def by (simp only: ok if_False init option.case)
qed

section \<open>The temporal dither schedule\<close>

lemma push_bit1_pow32: "push_bit 1 (2 ^ k :: uint32_t) = 2 ^ Suc k"
  by (simp add: push_bit_eq_mult)

lemma ucast_pow_32_64: "k < 32 \<Longrightarrow> (ucast (2 ^ k :: uint32_t) :: size_t) = 2 ^ k"
proof -
  assume k: "k < 32"
  have "(ucast (2 ^ k :: uint32_t) :: size_t) = of_nat (unat (2 ^ k :: uint32_t))"
    by simp
  also have "\<dots> = of_nat (2 ^ k)"
    using k by (simp only: unat_pow32)
  finally show ?thesis
    by simp
qed

lemma pow32_less_iff: "k < 32 \<Longrightarrow> (ucast (2 ^ k :: uint32_t) :: size_t) < p \<longleftrightarrow> 2 ^ k < unat p"
proof -
  assume k: "k < 32"
  then have "k < 64"
    by simp
  then show ?thesis
    using k by (simp only: ucast_pow_32_64 pow64_less_iff)
qed

lemma grow_counts_pow:
  assumes "k \<le> 31" and "unat p \<le> 2 ^ 31"
  shows "\<exists>t. k + t \<le> 31 \<and> unat p \<le> 2 ^ (k + t)
           \<and> (\<forall>t'<t. 2 ^ (k + t') < unat p)
           \<and> grow_counts (2 ^ k) tc p = Some (2 ^ (k + t), push_bit t tc)"
  using assms
proof (induction "31 - k" arbitrary: k tc)
  case 0
  then have k: "k = 31"
    by simp
  have "(ucast (2 ^ k :: uint32_t) :: size_t) < p \<longleftrightarrow> 2 ^ k < unat p"
    using k by (intro pow32_less_iff) simp
  moreover have "\<not> 2 ^ k < unat p"
    using "0.prems"(2) k by (simp only: not_less)
  ultimately have "\<not> (ucast (2 ^ k :: uint32_t) :: size_t) < p"
    by blast
  then have "grow_counts (2 ^ k) tc p = Some (2 ^ k, tc)"
    by (subst grow_counts.simps) simp
  with "0.prems" k show ?case
    by (intro exI [of _ 0]) simp
next
  case (Suc d)
  then have k: "k < 31"
    by simp
  have iff: "(ucast (2 ^ k :: uint32_t) :: size_t) < p \<longleftrightarrow> 2 ^ k < unat p"
    using k by (intro pow32_less_iff) simp
  show ?case
  proof (cases "(ucast (2 ^ k :: uint32_t) :: size_t) < p")
    case True
    then have lt: "2 ^ k < unat p"
      using iff by blast
    have "d = 31 - Suc k" "Suc k \<le> 31"
      using Suc.hyps k by simp_all
    from Suc.hyps(1) [OF this Suc.prems(2), of "push_bit 1 tc"]
    obtain t where t: "Suc k + t \<le> 31" "unat p \<le> 2 ^ (Suc k + t)"
        "\<forall>t'<t. 2 ^ (Suc k + t') < unat p"
        "grow_counts (2 ^ Suc k) (push_bit 1 tc) p = Some (2 ^ (Suc k + t), push_bit t (push_bit 1 tc))"
      by blast
    have "grow_counts (2 ^ k) tc p = grow_counts (push_bit 1 (2 ^ k)) (push_bit 1 tc) p"
      using True by (subst grow_counts.simps) simp
    then have r: "grow_counts (2 ^ k) tc p = Some (2 ^ (k + Suc t), push_bit (Suc t) tc)"
      using t(4) by (simp add: push_bit1_pow32 push_bit_eq_mult ac_simps)
    have "\<forall>t'<Suc t. 2 ^ (k + t') < unat p"
    proof (intro allI impI)
      fix t'
      assume "t' < Suc t"
      then consider "t' = 0" | u where "t' = Suc u" "u < t"
        by (cases t') auto
      then show "2 ^ (k + t') < unat p"
        using lt t(3) by cases simp_all
    qed
    with t r show ?thesis
      by (intro exI [of _ "Suc t"]) simp
  next
    case False
    then have le: "unat p \<le> 2 ^ k"
      using iff by (simp only: not_less)
    have "grow_counts (2 ^ k) tc p = Some (2 ^ k, tc)"
      using False by (subst grow_counts.simps) simp
    with le k show ?thesis
      by (intro exI [of _ 0]) simp
  qed
qed

lemma doubling_closed32:
  assumes "m = 0 \<or> (\<exists>k\<le>31. m = (2 ^ k :: uint32_t))"
  shows "push_bit 1 m = 0 \<or> (\<exists>k\<le>31. push_bit 1 m = 2 ^ k)"
proof -
  from assms consider "m = 0" | k where "k < 31" "m = 2 ^ k" | "m = 2 ^ 31"
    by (metis le_neq_implies_less)
  then show ?thesis
  proof cases
    case 1
    then show ?thesis by simp
  next
    case 2
    then have "push_bit 1 m = 2 ^ Suc k" "Suc k \<le> 31"
      by (simp_all only: push_bit1_pow32 Suc_leI)
    then show ?thesis by blast
  next
    case 3
    then have "push_bit 1 m = 0"
      by (simp add: push_bit_eq_mult)
    then show ?thesis by blast
  qed
qed

lemma doubling_bound32:
  assumes "m = 0 \<or> (\<exists>k\<le>31. m = (2 ^ k :: uint32_t))"
  shows "unat (ucast m :: size_t) \<le> 2 ^ 31"
proof -
  from assms consider "m = 0" | k where "k \<le> 31" "m = 2 ^ k"
    by blast
  then show ?thesis
  proof cases
    case 1
    then show ?thesis by simp
  next
    case 2
    then have k: "k < 32" "k < 64"
      by simp_all
    have "unat (ucast m :: size_t) = unat (2 ^ k :: size_t)"
      using 2(2) k(1) by (simp only: ucast_pow_32_64)
    also have "\<dots> = 2 ^ k"
      using k(2) by (rule unat_pow64)
    finally have "unat (ucast m :: size_t) = 2 ^ k" .
    also have "\<dots> \<le> 2 ^ 31"
      using 2(1) by (intro power_increasing) simp_all
    finally show ?thesis .
  qed
qed

lemma grow_counts_Some_bound:
  assumes "grow_counts m tc p = Some y"
  shows "\<not> (2 ^ 31 < unat p \<and> (m = 0 \<or> (\<exists>k\<le>31. m = 2 ^ k)))"
proof -
  have step: "\<not> (2 ^ 31 < unat p \<and> (m = 0 \<or> (\<exists>k\<le>31. m = 2 ^ k)))"
    if IH: "\<And>m tc p y. f m tc p = Some y \<Longrightarrow> \<not> (2 ^ 31 < unat p \<and> (m = 0 \<or> (\<exists>k\<le>31. m = 2 ^ k)))"
      and eq: "(if ucast m < p then f (push_bit 1 m) (push_bit 1 tc) p else Some (m, tc)) = Some y"
    for f and m tc :: uint32_t and p :: size_t and y
  proof
    assume a: "2 ^ 31 < unat p \<and> (m = 0 \<or> (\<exists>k\<le>31. m = 2 ^ k))"
    then have "unat (ucast m :: size_t) \<le> 2 ^ 31" and "2 ^ 31 < unat p"
      using doubling_bound32 by blast+
    then have "unat (ucast m :: size_t) < unat p"
      by (rule le_less_trans)
    then have "ucast m < p"
      by (simp only: word_less_nat_alt)
    with eq have "f (push_bit 1 m) (push_bit 1 tc) p = Some y"
      by simp
    then have "\<not> (2 ^ 31 < unat p \<and> (push_bit 1 m = 0 \<or> (\<exists>k\<le>31. push_bit 1 m = 2 ^ k)))"
      by (rule IH)
    then show False
      using a doubling_closed32 [of m] by blast
  qed
  show ?thesis
    by (rule grow_counts.raw_induct
        [where P = "\<lambda>m tc p y. \<not> (2 ^ 31 < unat p \<and> (m = 0 \<or> (\<exists>k\<le>31. m = 2 ^ k)))",
         OF step assms])
qed

lemma grow_counts_diverges:
  assumes "2 ^ 31 < unat p" and "k \<le> 31"
  shows "grow_counts (2 ^ k) tc p = None"
proof (cases "grow_counts (2 ^ k) tc p")
  case None
  then show ?thesis .
next
  case (Some y)
  from grow_counts_Some_bound [OF this] assms show ?thesis
    by blast
qed

lemma drop_bit_pow32: "m \<le> 31 \<Longrightarrow> drop_bit i (2 ^ m :: uint32_t) = of_nat (2 ^ m div 2 ^ i)"
proof -
  assume m: "m \<le> 31"
  have "drop_bit i (2 ^ m :: uint32_t) = of_nat (unat (drop_bit i (2 ^ m :: uint32_t)))"
    by simp
  also have "unat (drop_bit i (2 ^ m :: uint32_t)) = drop_bit i (unat (2 ^ m :: uint32_t))"
    by (rule unat_drop_bit_eq)
  also have "unat (2 ^ m :: uint32_t) = 2 ^ m"
    using m by (intro unat_pow32) simp
  finally show ?thesis
    by (simp only: drop_bit_eq_div)
qed

lemma push_bit_pow32: "push_bit i (2 ^ t :: uint32_t) = of_nat (2 ^ t * 2 ^ i)"
  by (simp add: push_bit_eq_mult)

lemma make_temporal_dither_schedule_pow:
  assumes n: "1 \<le>s n_planes" "n_planes \<le>s 10"
      and tp: "n_temporal_planes = 2 \<or> n_temporal_planes = 4" "n_temporal_planes <s n_planes"
      and r: "r = nat (sint n_planes) - nat (sint n_temporal_planes)"
      and grow: "grow_counts (2 ^ Suc r) 1 pixels_across = Some (2 ^ (Suc r + t), push_bit t 1)"
      and t: "Suc r + t \<le> 31"
  shows "make_temporal_dither_schedule n_planes pixels_across n_temporal_planes =
         Some (Inr (map (\<lambda>i.
             map (\<lambda>j. \<lparr>shift = 10 - of_nat j, active_time = of_nat (2 ^ (Suc r + t) div 2 ^ j)\<rparr>)
               [0..<r]
             @ [\<lparr>shift = 10 - of_nat (r + i), active_time = of_nat (2 ^ t * 2 ^ i)\<rparr>])
           [0..<nat (sint n_temporal_planes)]))"
proof -
  have sn: "1 \<le> sint n_planes" "sint n_planes \<le> 10"
    using n by (simp_all add: word_sle_eq)
  have stp: "sint n_temporal_planes = 2 \<or> sint n_temporal_planes = 4"
    using tp(1) by auto
  have lt: "sint n_temporal_planes < sint n_planes"
    using tp(2) by (simp add: word_sless_alt)
  define n_real_planes where "n_real_planes = n_planes - n_temporal_planes"
  have "- (2 ^ 31) \<le> sint n_planes - sint n_temporal_planes"
      "sint n_planes - sint n_temporal_planes < 2 ^ 31"
    using sn stp by auto
  then have "signed_take_bit 31 (sint n_planes - sint n_temporal_planes)
      = sint n_planes - sint n_temporal_planes"
    by (intro signed_take_bit_int_eq_self) simp_all
  then have sreal: "sint n_real_planes = sint n_planes - sint n_temporal_planes"
    by (simp add: n_real_planes_def sint_word_ariths)
  then have nreal: "nat (sint n_real_planes) = r"
    using r sn stp lt by auto
  have rpos: "1 \<le> r" "r \<le> 8"
    using r sn stp lt by auto
  have "0 \<le> sint n_real_planes"
    using sreal lt by simp
  then have "of_nat (nat (sint n_real_planes)) = n_real_planes"
    by (rule of_nat_nat_sint)
  then have real_of_nat: "n_real_planes = of_nat r"
    by (simp only: nreal)
  have checks: "\<not> (n_planes <s 1 \<or> 10 <s n_planes)" "n_temporal_planes \<noteq> 0"
      "\<not> n_planes \<le>s n_temporal_planes" "\<not> (n_temporal_planes \<noteq> 2 \<and> n_temporal_planes \<noteq> 4)"
    using sn stp lt tp(1) by (auto simp add: word_sless_alt word_sle_eq)
  have init: "push_bit (nat (sint n_real_planes)) (2 :: uint32_t) = 2 ^ Suc r"
    by (simp add: nreal push_bit_eq_mult)
  have tc: "push_bit t (1 :: uint32_t) = 2 ^ t"
    by (simp only: push_bit_of_1)
  have nonneg: "0 \<le>s n_real_planes" "0 \<le>s n_temporal_planes"
    using sreal lt stp by (auto simp add: word_sle_eq)
  have base: "for_int 0 n_real_planes (\<lambda>j sched.
                     sched @ [\<lparr>shift = 10 - j,
                               active_time = drop_bit (nat (sint j)) (2 ^ (Suc r + t) :: uint32_t)\<rparr>]) []
      = map (\<lambda>j. \<lparr>shift = 10 - of_nat j, active_time = of_nat (2 ^ (Suc r + t) div 2 ^ j)\<rparr>) [0..<r]"
  proof -
    have "for_int 0 n_real_planes (\<lambda>j sched.
                     sched @ [\<lparr>shift = 10 - j,
                               active_time = drop_bit (nat (sint j)) (2 ^ (Suc r + t) :: uint32_t)\<rparr>]) []
        = map (\<lambda>j. \<lparr>shift = 10 - of_nat j,
               active_time = drop_bit (nat (sint (of_nat j :: c_int))) (2 ^ (Suc r + t) :: uint32_t)\<rparr>)
            [0..<nat (sint n_real_planes)]"
      using nonneg(1) by (rule for_int_map)
    also have "\<dots> = map (\<lambda>j. \<lparr>shift = 10 - of_nat j,
          active_time = of_nat (2 ^ (Suc r + t) div 2 ^ j)\<rparr>) [0..<r]"
      unfolding nreal
    proof (rule map_cong [OF refl])
      fix j
      assume "j \<in> set [0..<r]"
      then have "j < 2 ^ 31"
        using rpos by simp
      then show "\<lparr>shift = 10 - of_nat j,
               active_time = drop_bit (nat (sint (of_nat j :: c_int))) (2 ^ (Suc r + t) :: uint32_t)\<rparr>
          = \<lparr>shift = 10 - of_nat j, active_time = of_nat (2 ^ (Suc r + t) div 2 ^ j)\<rparr>"
        using t by (simp only: nat_sint_of_nat drop_bit_pow32)
    qed
    finally show ?thesis .
  qed
  have seq: "for_int 0 n_temporal_planes (\<lambda>i result.
                     add_sched base_sched result (n_real_planes + i)
                       (push_bit (nat (sint i)) (2 ^ t))) []
      = map (\<lambda>i. base_sched @ [\<lparr>shift = 10 - of_nat (r + i), active_time = of_nat (2 ^ t * 2 ^ i)\<rparr>])
          [0..<nat (sint n_temporal_planes)]" for base_sched
  proof -
    have "for_int 0 n_temporal_planes (\<lambda>i result.
                     add_sched base_sched result (n_real_planes + i)
                       (push_bit (nat (sint i)) (2 ^ t))) []
        = for_int 0 n_temporal_planes (\<lambda>i result. result @
            [base_sched @ [\<lparr>shift = 10 - (n_real_planes + i),
                             active_time = push_bit (nat (sint i)) (2 ^ t)\<rparr>]]) []"
      by (simp only: add_sched_def)
    also have "\<dots> = map (\<lambda>i. base_sched @ [\<lparr>shift = 10 - (n_real_planes + of_nat i),
                             active_time = push_bit (nat (sint (of_nat i :: c_int))) (2 ^ t)\<rparr>])
            [0..<nat (sint n_temporal_planes)]"
      using nonneg(2) by (rule for_int_map)
    also have "\<dots> = map (\<lambda>i. base_sched @ [\<lparr>shift = 10 - of_nat (r + i),
          active_time = of_nat (2 ^ t * 2 ^ i)\<rparr>]) [0..<nat (sint n_temporal_planes)]"
    proof (rule map_cong [OF refl])
      fix i
      assume "i \<in> set [0..<nat (sint n_temporal_planes)]"
      then have "i < 2 ^ 31"
        using stp by auto
      then show "base_sched @ [\<lparr>shift = 10 - (n_real_planes + of_nat i),
                             active_time = push_bit (nat (sint (of_nat i :: c_int))) (2 ^ t)\<rparr>]
          = base_sched @ [\<lparr>shift = 10 - of_nat (r + i), active_time = of_nat (2 ^ t * 2 ^ i)\<rparr>]"
        by (simp only: nat_sint_of_nat push_bit_pow32 real_of_nat of_nat_add)
    qed
    finally show ?thesis .
  qed
  show ?thesis
    unfolding make_temporal_dither_schedule_def
    by (simp only: checks if_False if_True Let_def n_real_planes_def [symmetric] init grow
          option.case prod.case tc base seq not_False_eq_True)
qed

text \<open>
  Claim C5 (as amended). For every plane count \<open>n\<close> in \<open>[1, 10]\<close>, every temporal plane
  count \<open>b\<close> that is 2 or 4 and below \<open>n\<close>, and every \<^verbatim>\<open>pixels_across\<close> up to
  \<open>2 ^ 31\<close>, \<^verbatim>\<open>make_temporal_dither_schedule\<close> returns exactly \<open>b\<close> schedules. With
  \<open>r = n - b\<close>, \<^verbatim>\<open>max_count\<close> starts at \<open>2 * 2 ^ r\<close> and \<^verbatim>\<open>temporal_count\<close> at 1; both
  are doubled \<open>t\<close> times, until \<^verbatim>\<open>max_count\<close> is at least \<^verbatim>\<open>pixels_across\<close>. Schedule
  \<open>i\<close> is the \<open>r\<close> base entries (shift \<open>10 - j\<close>, dwell \<open>max_count >> j\<close>) followed by
  one entry with shift \<open>10 - (r + i)\<close> and dwell \<open>temporal_count << i\<close>, a 32-bit value.
  For \<^verbatim>\<open>pixels_across\<close> up to \<open>2 ^ 30\<close> that shift loses no bit.
\<close>

theorem make_temporal_dither_schedule_entries:
  assumes "1 \<le>s n_planes" and "n_planes \<le>s 10"
      and "n_temporal_planes = 2 \<or> n_temporal_planes = 4"
      and "n_temporal_planes <s n_planes"
      and "unat pixels_across \<le> 2 ^ 31"
  shows "\<exists>r t base.
      r = nat (sint n_planes) - nat (sint n_temporal_planes)
    \<and> Suc r + t \<le> 31 \<and> unat pixels_across \<le> 2 ^ (Suc r + t)
    \<and> (\<forall>t'<t. 2 ^ (Suc r + t') < unat pixels_across)
    \<and> base = map (\<lambda>j. \<lparr>shift = 10 - of_nat j,
                         active_time = of_nat (2 ^ (Suc r + t) div 2 ^ j)\<rparr>) [0..<r]
    \<and> make_temporal_dither_schedule n_planes pixels_across n_temporal_planes =
        Some (Inr (map (\<lambda>i. base @ [\<lparr>shift = 10 - of_nat (r + i),
                                      active_time = of_nat (2 ^ t * 2 ^ i)\<rparr>])
                     [0..<nat (sint n_temporal_planes)]))
    \<and> (\<forall>j<r. unat (shift (base ! j)) = 10 - j
             \<and> unat (active_time (base ! j)) = 2 ^ (Suc r + t) div 2 ^ j)
    \<and> (\<forall>i<nat (sint n_temporal_planes). unat (10 - of_nat (r + i) :: uint32_t) = 10 - (r + i))
    \<and> (unat pixels_across \<le> 2 ^ 30 \<longrightarrow>
         (\<forall>i<nat (sint n_temporal_planes).
            unat (of_nat (2 ^ t * 2 ^ i) :: uint32_t) = 2 ^ t * 2 ^ i))"
proof -
  define r where "r = nat (sint n_planes) - nat (sint n_temporal_planes)"
  define b where "b = nat (sint n_temporal_planes)"
  have sn: "1 \<le> sint n_planes" "sint n_planes \<le> 10"
    using assms(1,2) by (simp_all add: word_sle_eq)
  have stp: "sint n_temporal_planes = 2 \<or> sint n_temporal_planes = 4"
    using assms(3) by auto
  have lt: "sint n_temporal_planes < sint n_planes"
    using assms(4) by (simp add: word_sless_alt)
  have rb: "1 \<le> r" "r + b \<le> 10" "b = 2 \<or> b = 4"
    using sn stp lt by (auto simp add: r_def b_def)
  then have "Suc r \<le> 31"
    by simp
  from grow_counts_pow [OF this assms(5), of 1]
  obtain t where t: "Suc r + t \<le> 31" "unat pixels_across \<le> 2 ^ (Suc r + t)"
      "\<forall>t'<t. 2 ^ (Suc r + t') < unat pixels_across"
      "grow_counts (2 ^ Suc r) 1 pixels_across = Some (2 ^ (Suc r + t), push_bit t 1)"
    by blast
  define base where "base = map (\<lambda>j. \<lparr>shift = 10 - of_nat j,
      active_time = (of_nat (2 ^ (Suc r + t) div 2 ^ j) :: uint32_t)\<rparr>) [0..<r]"
  have res: "make_temporal_dither_schedule n_planes pixels_across n_temporal_planes =
        Some (Inr (map (\<lambda>i. base @ [\<lparr>shift = 10 - of_nat (r + i),
                                      active_time = of_nat (2 ^ t * 2 ^ i)\<rparr>]) [0..<b]))"
    using make_temporal_dither_schedule_pow [OF assms(1-4) r_def t(4) t(1)]
    by (simp only: base_def b_def)
  have pow_lt: "(2 :: nat) ^ (Suc r + t) div 2 ^ j < 2 ^ 32" for j
  proof -
    have "(2 :: nat) ^ (Suc r + t) div 2 ^ j \<le> 2 ^ (Suc r + t)"
      by (rule div_le_dividend)
    also have "\<dots> < 2 ^ 32"
      using t(1) by (intro power_strict_increasing) simp_all
    finally show ?thesis .
  qed
  have base_nth: "\<forall>j<r. unat (shift (base ! j)) = 10 - j
             \<and> unat (active_time (base ! j)) = 2 ^ (Suc r + t) div 2 ^ j"
  proof (intro allI impI)
    fix j
    assume j: "j < r"
    then have "base ! j = \<lparr>shift = 10 - of_nat j,
        active_time = of_nat (2 ^ (Suc r + t) div 2 ^ j)\<rparr>"
      by (simp add: base_def)
    moreover have "j \<le> 10"
      using j rb by simp
    ultimately show "unat (shift (base ! j)) = 10 - j
             \<and> unat (active_time (base ! j)) = 2 ^ (Suc r + t) div 2 ^ j"
      using pow_lt [of j] by (simp only: schedule_entry.simps unat_shift_field unat_of_nat32)
  qed
  have shifts: "\<forall>i<b. unat (10 - of_nat (r + i) :: uint32_t) = 10 - (r + i)"
  proof (intro allI impI)
    fix i
    assume "i < b"
    with rb have "r + i \<le> 10"
      by simp
    then show "unat (10 - of_nat (r + i) :: uint32_t) = 10 - (r + i)"
      by (rule unat_shift_field)
  qed
  have exact: "\<forall>i<b. unat (of_nat (2 ^ t * 2 ^ i) :: uint32_t) = 2 ^ t * 2 ^ i"
    if small: "unat pixels_across \<le> 2 ^ 30"
  proof (intro allI impI)
    fix i
    assume i: "i < b"
    have "Suc r + t \<le> 30"
    proof (rule ccontr)
      assume "\<not> Suc r + t \<le> 30"
      with t(1) have eq: "Suc r + t = 31"
        by simp
      with rb have "t - 1 < t" "Suc r + (t - 1) = 30"
        by simp_all
      with t(3) have "2 ^ 30 < unat pixels_across"
        by metis
      with small show False
        by simp
    qed
    with i rb have "t + i < 32"
      by auto
    then have "(2 :: nat) ^ (t + i) < 2 ^ 32"
      by (intro power_strict_increasing) simp_all
    then have "(2 :: nat) ^ t * 2 ^ i < 2 ^ 32"
      by (simp only: power_add)
    then show "unat (of_nat (2 ^ t * 2 ^ i) :: uint32_t) = 2 ^ t * 2 ^ i"
      by (rule unat_of_nat32)
  qed
  show ?thesis
    using t(1-3) res base_nth shifts exact
    unfolding b_def [symmetric]
    by (intro exI [of _ r] exI [of _ t] exI [of _ base]) (simp add: r_def base_def b_def)
qed

theorem make_temporal_dither_schedule_entries_witness:
  "(1 :: c_int) \<le>s 6 \<and> (6 :: c_int) \<le>s 10 \<and> (2 :: c_int) <s 6 \<and> unat (100 :: size_t) \<le> 2 ^ 31
   \<and> make_temporal_dither_schedule 6 100 2 =
       Some (Inr [[\<lparr>shift = 10, active_time = 128\<rparr>, \<lparr>shift = 9, active_time = 64\<rparr>,
                   \<lparr>shift = 8, active_time = 32\<rparr>, \<lparr>shift = 7, active_time = 16\<rparr>,
                   \<lparr>shift = 6, active_time = 4\<rparr>],
                  [\<lparr>shift = 10, active_time = 128\<rparr>, \<lparr>shift = 9, active_time = 64\<rparr>,
                   \<lparr>shift = 8, active_time = 32\<rparr>, \<lparr>shift = 7, active_time = 16\<rparr>,
                   \<lparr>shift = 5, active_time = 8\<rparr>]])"
proof -
  have h: "(1 :: c_int) \<le>s 6" "(6 :: c_int) \<le>s 10" "(2 :: c_int) = 2 \<or> (2 :: c_int) = 4"
      "(2 :: c_int) <s 6" "unat (100 :: size_t) \<le> 2 ^ 31"
    by (simp_all add: word_sle_eq word_sless_alt)
  from make_temporal_dither_schedule_entries [OF h]
  obtain r t base where r0: "r = nat (sint (6 :: c_int)) - nat (sint (2 :: c_int))"
    and t0: "unat (100 :: size_t) \<le> 2 ^ (Suc r + t)"
      "\<forall>t'<t. 2 ^ (Suc r + t') < unat (100 :: size_t)"
    and base: "base = map (\<lambda>j. \<lparr>shift = 10 - of_nat j,
                         active_time = of_nat (2 ^ (Suc r + t) div 2 ^ j)\<rparr>) [0..<r]"
    and res0: "make_temporal_dither_schedule 6 100 2 =
        Some (Inr (map (\<lambda>i. base @ [\<lparr>shift = 10 - of_nat (r + i),
                                      active_time = of_nat (2 ^ t * 2 ^ i)\<rparr>])
                     [0..<nat (sint (2 :: c_int))]))"
    by blast
  have r: "r = 4"
    using r0 by simp
  have t: "100 \<le> (2 :: nat) ^ (Suc r + t)" "\<forall>t'<t. (2 :: nat) ^ (Suc r + t') < 100"
    using t0 by simp_all
  have res: "make_temporal_dither_schedule 6 100 2 =
        Some (Inr (map (\<lambda>i. base @ [\<lparr>shift = 10 - of_nat (r + i),
                                      active_time = of_nat (2 ^ t * 2 ^ i)\<rparr>]) [0..<2]))"
    using res0 by simp
  have "t = 2"
  proof (rule ccontr)
    assume "t \<noteq> 2"
    then consider "t \<le> 1" | "2 < t"
      by linarith
    then show False
    proof cases
      case 1
      then have "(2 :: nat) ^ (Suc r + t) \<le> 2 ^ 6"
        using r by (intro power_increasing) simp_all
      with t(1) show False
        by simp
    next
      case 2
      with t(2) have "(2 :: nat) ^ (Suc r + 2) < 100"
        by blast
      then show False
        using r by simp
    qed
  qed
  with r base have "base = [\<lparr>shift = 10, active_time = 128\<rparr>, \<lparr>shift = 9, active_time = 64\<rparr>,
                   \<lparr>shift = 8, active_time = 32\<rparr>, \<lparr>shift = 7, active_time = 16\<rparr>]"
    by (simp add: upt_rec)
  with res r \<open>t = 2\<close> h show ?thesis
    by (simp add: upt_rec)
qed

lemma make_temporal_dither_schedule_diverges:
  assumes "1 \<le>s n_planes" and "n_planes \<le>s 10"
      and "n_temporal_planes = 2 \<or> n_temporal_planes = 4"
      and "n_temporal_planes <s n_planes"
      and "2 ^ 31 < unat pixels_across"
  shows "make_temporal_dither_schedule n_planes pixels_across n_temporal_planes = None"
proof -
  have sn: "1 \<le> sint n_planes" "sint n_planes \<le> 10"
    using assms(1,2) by (simp_all add: word_sle_eq)
  have stp: "sint n_temporal_planes = 2 \<or> sint n_temporal_planes = 4"
    using assms(3) by auto
  have lt: "sint n_temporal_planes < sint n_planes"
    using assms(4) by (simp add: word_sless_alt)
  define r where "r = nat (sint n_planes) - nat (sint n_temporal_planes)"
  have "- (2 ^ 31) \<le> sint n_planes - sint n_temporal_planes"
      "sint n_planes - sint n_temporal_planes < 2 ^ 31"
    using sn stp by auto
  then have "signed_take_bit 31 (sint n_planes - sint n_temporal_planes)
      = sint n_planes - sint n_temporal_planes"
    by (intro signed_take_bit_int_eq_self) simp_all
  then have "sint (n_planes - n_temporal_planes) = sint n_planes - sint n_temporal_planes"
    by (simp add: sint_word_ariths)
  then have nreal: "nat (sint (n_planes - n_temporal_planes)) = r"
    using sn stp lt by (auto simp add: r_def)
  have r: "Suc r \<le> 31"
    using sn stp lt by (auto simp add: r_def)
  have checks: "\<not> (n_planes <s 1 \<or> 10 <s n_planes)" "n_temporal_planes \<noteq> 0"
      "\<not> n_planes \<le>s n_temporal_planes" "\<not> (n_temporal_planes \<noteq> 2 \<and> n_temporal_planes \<noteq> 4)"
    using sn stp lt assms(3) by (auto simp add: word_sless_alt word_sle_eq)
  have init: "push_bit (nat (sint (n_planes - n_temporal_planes))) (2 :: uint32_t) = 2 ^ Suc r"
    by (simp add: nreal push_bit_eq_mult)
  have "grow_counts (2 ^ Suc r) 1 pixels_across = None"
    using assms(5) r by (rule grow_counts_diverges)
  then show ?thesis
    unfolding make_temporal_dither_schedule_def
    by (simp only: checks if_False Let_def init option.case)
qed

text \<open>
  Claim C5 as stated covers every \<^verbatim>\<open>pixels_across\<close>. Above \<open>2 ^ 31\<close> no doubling of the
  32-bit \<^verbatim>\<open>max_count\<close> reaches it: \<^verbatim>\<open>max_count\<close> wraps to 0 and the loop never ends. With
  three planes, two of them temporal, and \<^verbatim>\<open>pixels_across\<close> \<open>= 2 ^ 31 + 1\<close> the call
  returns nothing.
\<close>

theorem make_temporal_dither_schedule_no_return:
  "make_temporal_dither_schedule 3 (2 ^ 31 + 1) 2 = None"
proof -
  have "(2 :: nat) ^ 31 < unat (2 ^ 31 + 1 :: size_t)"
    by simp
  then have "grow_counts (2 ^ 2) 1 (2 ^ 31 + 1) = None"
    by (rule grow_counts_diverges) simp
  moreover have "push_bit (nat (sint (3 - 2 :: c_int))) (2 :: uint32_t) = 2 ^ 2"
    by simp
  ultimately show ?thesis
    unfolding make_temporal_dither_schedule_def
    by (simp only: Let_def option.case) (simp add: word_sless_alt word_sle_eq)
qed

section \<open>The pixel-address map: errors, length and entries\<close>

lemma unat_add1: "k < n \<Longrightarrow> unat (k + 1 :: size_t) = Suc (unat k)"
proof -
  assume "k < n"
  then have lt: "unat k < unat n"
    by (simp add: word_less_nat_alt)
  have "unat n < 2 ^ 64"
    using unsigned_less [of n, where ?'a = nat] by simp
  with lt have "unat k + unat (1 :: size_t) < 2 ^ LENGTH(64)"
    by simp
  then have "unat (k + 1) = unat k + 1"
    using unat_add_lem [of k 1] by simp
  then show ?thesis
    by simp
qed

lemma fold_case_Inl: "fold (\<lambda>k. case_sum Inl (body k)) xs (Inl e) = Inl e"
  by (induction xs) simp_all

lemma for_size_t_fold:
  "k \<le> n \<Longrightarrow> for_size_t k n body s = fold (\<lambda>k. case_sum Inl (body k)) (map of_nat [unat k..<unat n]) (Inr s)"
proof (induction k n body s rule: for_size_t.induct)
  case (1 k n body s)
  show ?case
  proof (cases "k < n")
    case True
    then have lt: "unat k < unat n"
      by (simp add: word_less_nat_alt)
    have s1: "unat (k + 1) = Suc (unat k)"
      using True by (rule unat_add1)
    have le: "k + 1 \<le> n"
      using lt s1 by (simp add: word_le_nat_alt)
    have upt: "[unat k..<unat n] = unat k # [unat (k + 1)..<unat n]"
      using lt by (simp only: s1 upt_conv_Cons)
    have unfold: "fold (\<lambda>k. case_sum Inl (body k)) (map of_nat [unat k..<unat n]) (Inr s)
        = fold (\<lambda>k. case_sum Inl (body k)) (map of_nat [unat (k + 1)..<unat n]) (body k s)"
      by (simp only: upt list.map fold.simps o_apply of_nat_unat ucast_id sum.case)
    show ?thesis
    proof (cases "body k s")
      case (Inl e)
      have "for_size_t k n body s = Inl e"
        using True Inl by (subst for_size_t.simps) (simp only: if_True sum.case)
      then show ?thesis
        by (simp only: unfold Inl fold_case_Inl)
    next
      case (Inr s')
      have "for_size_t k n body s = for_size_t (k + 1) n body s'"
        using True Inr by (subst for_size_t.simps) (simp only: if_True sum.case)
      also have "\<dots> = fold (\<lambda>k. case_sum Inl (body k)) (map of_nat [unat (k + 1)..<unat n]) (Inr s')"
        using True Inr le by (rule "1.IH")
      finally show ?thesis
        by (simp only: unfold Inr)
    qed
  next
    case False
    with "1.prems" have "k = n"
      by simp
    then show ?thesis
      by (subst for_size_t.simps) simp
  qed
qed

lemma fold_push:
  assumes body: "\<And>j v. length v \<le> unat max_size \<Longrightarrow>
            body j v = (if length v + c \<le> unat max_size then Inr (v @ f j) else Inl length_error)"
      and len: "\<And>j. length (f j) = c"
  shows "length v \<le> unat max_size \<Longrightarrow>
         fold (\<lambda>k. case_sum Inl (body k)) js (Inr v)
           = (if length v + length js * c \<le> unat max_size then Inr (v @ concat (map f js))
              else Inl length_error)"
proof (induction js arbitrary: v)
  case Nil
  then show ?case
    by simp
next
  case (Cons j js)
  show ?case
  proof (cases "length v + c \<le> unat max_size")
    case True
    then have b: "body j v = Inr (v @ f j)"
      using body [OF Cons.prems] by simp
    have "length (v @ f j) \<le> unat max_size"
      using True by (simp add: len)
    then have "fold (\<lambda>k. case_sum Inl (body k)) js (Inr (v @ f j))
        = (if length (v @ f j) + length js * c \<le> unat max_size
           then Inr ((v @ f j) @ concat (map f js)) else Inl length_error)"
      by (rule Cons.IH)
    then show ?thesis
      by (simp add: b len add.assoc)
  next
    case False
    then have b: "body j v = Inl length_error"
      using body [OF Cons.prems] by simp
    have "\<not> length v + length (j # js) * c \<le> unat max_size"
      using False by simp
    then show ?thesis
      by (simp add: b fold_case_Inl)
  qed
qed

lemma for_size_t_push:
  assumes body: "\<And>j v. length v \<le> unat max_size \<Longrightarrow>
            body j v = (if length v + c \<le> unat max_size then Inr (v @ f j) else Inl length_error)"
      and len: "\<And>j. length (f j) = c"
      and v: "length v \<le> unat max_size"
  shows "for_size_t 0 n body v
           = (if length v + unat n * c \<le> unat max_size
              then Inr (v @ concat (map (\<lambda>j. f (of_nat j)) [0..<unat n]))
              else Inl length_error)"
proof -
  have "for_size_t 0 n body v = fold (\<lambda>k. case_sum Inl (body k)) (map of_nat [unat (0 :: size_t)..<unat n]) (Inr v)"
    by (rule for_size_t_fold) simp
  also have "\<dots> = (if length v + length (map (of_nat :: nat \<Rightarrow> size_t) [unat (0 :: size_t)..<unat n]) * c \<le> unat max_size
       then Inr (v @ concat (map f (map of_nat [unat (0 :: size_t)..<unat n])))
       else Inl length_error)"
    using body len v by (rule fold_push)
  finally show ?thesis
    by (simp only: map_map comp_def length_map length_upt unat_0 diff_zero)
qed

lemma max_size_less: "unat max_size < 2 ^ 64"
  using unsigned_less [of max_size, where ?'a = nat] by simp

lemma push_back_result:
  assumes "length v \<le> unat max_size"
  shows "push_back x v
     = (if length v + 1 \<le> unat max_size then Inr (v @ [x]) else Inl length_error)"
proof -
  have "length v < 2 ^ 64"
    using assms max_size_less by simp
  then have "unat (of_nat (length v) :: size_t) = length v"
    by (simp add: unat_of_nat)
  then have "max_size \<le> of_nat (length v) \<longleftrightarrow> unat max_size \<le> length v"
    by (simp add: word_le_nat_alt)
  then show ?thesis
    unfolding push_back_def by auto
qed

lemma push_back_twice:
  assumes "length v \<le> unat max_size"
  shows "(case push_back a v of Inl e \<Rightarrow> Inl e | Inr v' \<Rightarrow> push_back b v')
     = (if length v + 2 \<le> unat max_size then Inr (v @ [a, b]) else Inl length_error)"
proof (cases "length v + 1 \<le> unat max_size")
  case True
  then have "length (v @ [a]) \<le> unat max_size"
    by simp
  then have "push_back b (v @ [a])
      = (if length (v @ [a]) + 1 \<le> unat max_size then Inr ((v @ [a]) @ [b]) else Inl length_error)"
    by (rule push_back_result)
  with True show ?thesis
    by (simp add: push_back_result [OF assms])
next
  case False
  then show ?thesis
    by (simp add: push_back_result [OF assms])
qed

lemma length_concat_uniform:
  "(\<And>x. x \<in> set xs \<Longrightarrow> length (f x) = c) \<Longrightarrow> length (concat (map f xs)) = length xs * c"
  by (induction xs) simp_all

lemma length_cell:
  "length (case c of (x, y0, y1) \<Rightarrow> [g x y0, g x y1]) = 2"
  by (simp split: prod.splits)

text \<open>The two values that one step of the inner loop appends.\<close>

lemma make_matrixmap_cells:
  "make_matrixmap width height n_addr_lines serpentine cb =
     (let panel_height = (scast (push_bit (unat n_addr_lines mod 32) (2 :: c_int)) :: size_t);
          half_panel_height = (ucast (push_bit (unat n_addr_lines mod 32) (1 :: uint32_t)) :: size_t);
          pixels_across = width * (height div panel_height)
      in if height mod panel_height \<noteq> 0 then Inl range_error
         else if unat max_size < unat (width * height) then Inl length_error
         else if unat max_size < unat half_panel_height * (unat pixels_across * 2) then Inl length_error
         else Inr (concat (map (\<lambda>i. concat (map (\<lambda>j.
                case matrixmap_coords width panel_height half_panel_height serpentine
                       (of_nat i) (of_nat j) of
                  (x, y0, y1) \<Rightarrow> [cb (ucast width) (ucast height) x y0,
                                  cb (ucast width) (ucast height) x y1])
              [0..<unat pixels_across])) [0..<unat half_panel_height])))"
proof -
  define ph where "ph = (scast (push_bit (unat n_addr_lines mod 32) (2 :: c_int)) :: size_t)"
  define hp where "hp = (ucast (push_bit (unat n_addr_lines mod 32) (1 :: uint32_t)) :: size_t)"
  define pa where "pa = width * (height div ph)"
  define cell where "cell = (\<lambda>i j. case matrixmap_coords width ph hp serpentine i j of
      (x, y0, y1) \<Rightarrow> [cb (ucast width) (ucast height) x y0, cb (ucast width) (ucast height) x y1])"
  define inner where "inner = (\<lambda>i j result.
      let (x, y0, y1) = matrixmap_coords width ph hp serpentine i j
      in case push_back (cb (ucast width) (ucast height) x y0) result of
           Inl e \<Rightarrow> Inl e
         | Inr result \<Rightarrow> push_back (cb (ucast width) (ucast height) x y1) result)"
  define row where "row = (\<lambda>i. concat (map (\<lambda>j. cell i (of_nat j)) [0..<unat pa]))"
  have len_cell: "length (cell i j) = 2" for i j
    unfolding cell_def by (rule length_cell)
  have len_row: "length (row i) = unat pa * 2" for i
  proof -
    have "length (row i) = length [0..<unat pa] * 2"
      unfolding row_def by (rule length_concat_uniform) (rule len_cell)
    then show ?thesis
      by simp
  qed
  have step: "inner i j v = (if length v + 2 \<le> unat max_size then Inr (v @ cell i j) else Inl length_error)"
    if "length v \<le> unat max_size" for i j v
    unfolding inner_def cell_def by (simp add: push_back_twice [OF that] split: prod.splits)
  have inner_loop: "for_size_t 0 pa (inner i) v
      = (if length v + unat pa * 2 \<le> unat max_size then Inr (v @ row i) else Inl length_error)"
    if "length v \<le> unat max_size" for i v
    unfolding row_def using step len_cell that by (rule for_size_t_push)
  have "for_size_t 0 hp (\<lambda>i. for_size_t 0 pa (inner i)) []
      = (if length ([] :: c_int list) + unat hp * (unat pa * 2) \<le> unat max_size
         then Inr ([] @ concat (map (\<lambda>i. row (of_nat i)) [0..<unat hp]))
         else Inl length_error)"
  proof (rule for_size_t_push)
    show "length v \<le> unat max_size \<Longrightarrow> for_size_t 0 pa (inner i) v
        = (if length v + unat pa * 2 \<le> unat max_size then Inr (v @ row i) else Inl length_error)"
      for i v
      by (rule inner_loop)
    show "length (row i) = unat pa * 2" for i
      by (rule len_row)
    show "length ([] :: c_int list) \<le> unat max_size"
      by simp
  qed
  then have loops: "for_size_t 0 hp (\<lambda>i. for_size_t 0 pa (inner i)) []
      = (if unat max_size < unat hp * (unat pa * 2) then Inl length_error
         else Inr (concat (map (\<lambda>i. row (of_nat i)) [0..<unat hp])))"
    by (simp add: not_less)
  have "make_matrixmap width height n_addr_lines serpentine cb =
      (if height mod ph \<noteq> 0 then Inl range_error
       else if unat max_size < unat (width * height) then Inl length_error
       else for_size_t 0 hp (\<lambda>i. for_size_t 0 pa (inner i)) [])"
    unfolding make_matrixmap_def reserve_def inner_def ph_def hp_def pa_def Let_def
    by (simp only: sum.case if_distrib [of "case_sum _ _"] word_less_nat_alt [of max_size]
          cong: if_cong)
  then have "make_matrixmap width height n_addr_lines serpentine cb =
      (if height mod ph \<noteq> 0 then Inl range_error
       else if unat max_size < unat (width * height) then Inl length_error
       else if unat max_size < unat hp * (unat pa * 2) then Inl length_error
       else Inr (concat (map (\<lambda>i. row (of_nat i)) [0..<unat hp])))"
    by (simp only: loops)
  then show ?thesis
    unfolding Let_def row_def cell_def pa_def ph_def hp_def .
qed

lemma panel_height_value: "n \<le> 29 \<Longrightarrow> (scast (push_bit n (2 :: c_int)) :: size_t) = 2 ^ Suc n"
proof -
  assume "n \<le> 29"
  then have "Suc n < 31"
    by simp
  then have "(scast (push_bit (Suc n) (1 :: c_int)) :: size_t) = 2 ^ Suc n"
    by (rule scast_push_bit_1)
  moreover have "push_bit n (2 :: c_int) = push_bit (Suc n) 1"
    by (simp add: push_bit_eq_mult)
  ultimately show ?thesis
    by (simp only:)
qed

lemma half_panel_height_value:
  "n \<le> 31 \<Longrightarrow> (ucast (push_bit n (1 :: uint32_t)) :: size_t) = 2 ^ n"
proof -
  assume "n \<le> 31"
  then have "n < 32"
    by simp
  then show ?thesis
    by (simp only: push_bit_of_1 ucast_pow_32_64)
qed

lemma nth_concat_uniform:
  assumes "\<And>x. x \<in> set xs \<Longrightarrow> length (f x) = c" and "i < length xs" and "k < c"
  shows "concat (map f xs) ! (i * c + k) = f (xs ! i) ! k"
  using assms
proof (induction xs arbitrary: i)
  case Nil
  then show ?case by simp
next
  case (Cons x xs)
  have len: "length (f x) = c"
    using Cons.prems(1) by simp
  show ?case
  proof (cases i)
    case 0
    then show ?thesis
      using len Cons.prems(3) by (simp add: nth_append)
  next
    case (Suc i')
    have "concat (map f xs) ! (i' * c + k) = f (xs ! i') ! k"
      using Cons.prems Suc by (intro Cons.IH) simp_all
    then show ?thesis
      using len Suc by (simp add: nth_append)
  qed
qed

lemma make_matrixmap_result:
  assumes "unat n_addr_lines \<le> 29"
  shows "make_matrixmap width height n_addr_lines serpentine cb =
     (if unat height mod 2 ^ Suc (unat n_addr_lines) \<noteq> 0 then Inl range_error
      else if unat max_size < unat (width * height) then Inl length_error
      else if unat max_size < 2 ^ unat n_addr_lines
                * (unat (width * (height div 2 ^ Suc (unat n_addr_lines))) * 2)
      then Inl length_error
      else Inr (concat (map (\<lambda>i. concat (map (\<lambda>j.
                case matrixmap_coords width (2 ^ Suc (unat n_addr_lines))
                       (2 ^ unat n_addr_lines) serpentine (of_nat i) (of_nat j) of
                  (x, y0, y1) \<Rightarrow> [cb (ucast width) (ucast height) x y0,
                                  cb (ucast width) (ucast height) x y1])
              [0..<unat (width * (height div 2 ^ Suc (unat n_addr_lines)))]))
            [0..<2 ^ unat n_addr_lines])))"
proof -
  have count: "unat n_addr_lines mod 32 = unat n_addr_lines"
    using assms by (intro mod_less) simp
  have ph: "(scast (push_bit (unat n_addr_lines) (2 :: c_int)) :: size_t) = 2 ^ Suc (unat n_addr_lines)"
    using assms by (rule panel_height_value)
  have hp: "(ucast (push_bit (unat n_addr_lines) (1 :: uint32_t)) :: size_t) = 2 ^ unat n_addr_lines"
    using assms by (intro half_panel_height_value) simp
  have uph: "unat (2 ^ Suc (unat n_addr_lines) :: size_t) = 2 ^ Suc (unat n_addr_lines)"
    using assms by (intro unat_pow64) simp
  have uhp: "unat (2 ^ unat n_addr_lines :: size_t) = 2 ^ unat n_addr_lines"
    using assms by (intro unat_pow64) simp
  have "height mod 2 ^ Suc (unat n_addr_lines) \<noteq> 0
      \<longleftrightarrow> unat (height mod 2 ^ Suc (unat n_addr_lines)) \<noteq> 0"
    by (simp only: unat_eq_0)
  then have cond: "height mod 2 ^ Suc (unat n_addr_lines) \<noteq> 0
      \<longleftrightarrow> unat height mod 2 ^ Suc (unat n_addr_lines) \<noteq> 0"
    by (simp only: unat_mod uph)
  show ?thesis
    by (simp only: make_matrixmap_cells Let_def count ph hp cond uhp)
qed

text \<open>
  With the height a multiple of the panel height and a canvas that the vector can hold,
  nothing wraps and nothing is thrown.
\<close>

lemma make_matrixmap_built:
  assumes a29: "unat n_addr_lines \<le> 29"
      and divisible: "unat height mod 2 ^ Suc (unat n_addr_lines) = 0"
      and fits: "unat width * unat height \<le> unat max_size"
  shows "unat (width * (height div 2 ^ Suc (unat n_addr_lines)))
           = unat width * (unat height div 2 ^ Suc (unat n_addr_lines))"
    and "make_matrixmap width height n_addr_lines serpentine cb =
      Inr (concat (map (\<lambda>i. concat (map (\<lambda>j.
                case matrixmap_coords width (2 ^ Suc (unat n_addr_lines))
                       (2 ^ unat n_addr_lines) serpentine (of_nat i) (of_nat j) of
                  (x, y0, y1) \<Rightarrow> [cb (ucast width) (ucast height) x y0,
                                  cb (ucast width) (ucast height) x y1])
              [0..<unat width * (unat height div 2 ^ Suc (unat n_addr_lines))]))
            [0..<2 ^ unat n_addr_lines]))"
proof -
  define a where "a = unat n_addr_lines"
  define W where "W = unat width"
  define H where "H = unat height"
  have uph: "unat (2 ^ Suc a :: size_t) = 2 ^ Suc a"
    using a29 by (intro unat_pow64) (simp add: a_def)
  have WH: "W * H < 2 ^ LENGTH(64)"
    using fits max_size_less by (simp add: W_def H_def)
  then have prod: "unat (width * height) = W * H"
    using unat_mult_lem [of width height] by (simp add: W_def H_def)
  have "W * (H div 2 ^ Suc a) \<le> W * H"
    by (intro mult_le_mono2) (rule div_le_dividend)
  with WH have "unat width * unat (height div 2 ^ Suc a) < 2 ^ LENGTH(64)"
    by (simp only: unat_div uph W_def [symmetric] H_def [symmetric])
  then have "unat (width * (height div 2 ^ Suc a)) = unat width * unat (height div 2 ^ Suc a)"
    using unat_mult_lem [of width "height div 2 ^ Suc a"] by simp
  then have pa: "unat (width * (height div 2 ^ Suc a)) = W * (H div 2 ^ Suc a)"
    by (simp only: unat_div uph W_def [symmetric] H_def [symmetric])
  have fits': "W * H \<le> unat max_size"
    using fits by (simp only: W_def H_def)
  have hd: "H div 2 ^ Suc a * 2 ^ Suc a = H"
    using divisible by (simp add: a_def H_def mod_eq_0_iff_dvd)
  have "2 ^ a * (W * (H div 2 ^ Suc a) * 2) = W * (H div 2 ^ Suc a * 2 ^ Suc a)"
    by simp
  also have "\<dots> = W * H"
    by (simp only: hd)
  finally have total: "\<not> unat max_size < 2 ^ a * (W * (H div 2 ^ Suc a) * 2)"
    using fits' by (simp only: not_less)
  have whole: "\<not> unat max_size < unat (width * height)"
    using fits' by (simp only: prod not_less)
  show "unat (width * (height div 2 ^ Suc (unat n_addr_lines)))
           = unat width * (unat height div 2 ^ Suc (unat n_addr_lines))"
    using pa by (simp only: a_def W_def H_def)
  have "make_matrixmap width height n_addr_lines serpentine cb =
      Inr (concat (map (\<lambda>i. concat (map (\<lambda>j.
                case matrixmap_coords width (2 ^ Suc a) (2 ^ a) serpentine (of_nat i) (of_nat j) of
                  (x, y0, y1) \<Rightarrow> [cb (ucast width) (ucast height) x y0,
                                  cb (ucast width) (ucast height) x y1])
              [0..<W * (H div 2 ^ Suc a)])) [0..<2 ^ a]))"
    using divisible whole total
    by (simp only: make_matrixmap_result [OF a29] a_def [symmetric] H_def [symmetric] pa
          not_not refl if_False if_True simp_thms)
  then show "make_matrixmap width height n_addr_lines serpentine cb =
      Inr (concat (map (\<lambda>i. concat (map (\<lambda>j.
                case matrixmap_coords width (2 ^ Suc (unat n_addr_lines))
                       (2 ^ unat n_addr_lines) serpentine (of_nat i) (of_nat j) of
                  (x, y0, y1) \<Rightarrow> [cb (ucast width) (ucast height) x y0,
                                  cb (ucast width) (ucast height) x y1])
              [0..<unat width * (unat height div 2 ^ Suc (unat n_addr_lines))]))
            [0..<2 ^ unat n_addr_lines]))"
    by (simp only: a_def W_def H_def)
qed

lemma nth_grid:
  assumes "i < h" and "j < w" and "e < c" and len: "\<And>i j. length (cell i j) = c"
  shows "concat (map (\<lambda>i. concat (map (cell i) [0..<w])) [0..<h]) ! (c * (i * w + j) + e)
       = cell i j ! e"
proof -
  have row: "length (concat (map (cell i) [0..<w])) = w * c" for i
    using length_concat_uniform [of "[0..<w]" "cell i" c] len by simp
  have je: "j * c + e < w * c"
  proof -
    have "j * c + e < j * c + c"
      using assms(3) by simp
    also have "\<dots> = Suc j * c"
      by simp
    also have "\<dots> \<le> w * c"
      using assms(2) by (intro mult_le_mono1) simp
    finally show ?thesis .
  qed
  have idx: "c * (i * w + j) + e = i * (w * c) + (j * c + e)"
    by (simp add: algebra_simps)
  have "concat (map (\<lambda>i. concat (map (cell i) [0..<w])) [0..<h]) ! (i * (w * c) + (j * c + e))
      = concat (map (cell ([0..<h] ! i)) [0..<w]) ! (j * c + e)"
    using assms(1) je by (intro nth_concat_uniform) (simp_all add: row)
  also have "\<dots> = concat (map (cell i) [0..<w]) ! (j * c + e)"
    using assms(1) by simp
  also have "\<dots> = cell i ([0..<w] ! j) ! e"
    using assms(2,3) by (intro nth_concat_uniform) (simp_all add: len)
  also have "\<dots> = cell i j ! e"
    using assms(2) by simp
  finally show ?thesis
    by (simp only: idx)
qed

lemma length_grid:
  assumes "\<And>i j. length (cell i j) = c"
  shows "length (concat (map (\<lambda>i. concat (map (cell i) [0..<w])) [0..<h])) = h * (w * c)"
proof -
  have row: "length (concat (map (cell i) [0..<w])) = w * c" for i
    using length_concat_uniform [of "[0..<w]" "cell i" c] assms by simp
  show ?thesis
    using length_concat_uniform [of "[0..<h]" "\<lambda>i. concat (map (cell i) [0..<w])" "w * c"] row
    by simp
qed

lemma int_mod_2_nonzero: "int_mod a 2 \<noteq> 0 \<longleftrightarrow> odd (sint a)"
proof -
  define k where "k = sint a"
  have v: "k smod 2 = sgn k * (\<bar>k\<bar> mod 2)"
    by (simp add: signed_modulo_int_def)
  have "\<bar>k\<bar> mod 2 = 0 \<or> \<bar>k\<bar> mod 2 = 1"
    by presburger
  then have cases: "k smod 2 = 0 \<and> even k \<or> (k smod 2 = 1 \<or> k smod 2 = - 1) \<and> odd k"
    unfolding v by (cases "k < 0"; cases "k = 0") (auto simp add: sgn_if)
  have "(word_of_int (k smod 2) :: c_int) \<noteq> 0 \<longleftrightarrow> odd k"
    using cases by auto
  then show ?thesis
    by (simp add: int_mod_def k_def)
qed

lemma odd_sint_ucast: "odd (sint (ucast (w :: size_t) :: c_int)) \<longleftrightarrow> odd (unat w)"
proof -
  have "sint (ucast w :: c_int) = signed_take_bit 31 (uint w)"
    by (simp add: signed_ucast_eq)
  then have "odd (sint (ucast w :: c_int)) \<longleftrightarrow> odd (uint w)"
    by (simp add: even_signed_take_bit_iff)
  also have "\<dots> \<longleftrightarrow> odd (int (unat w))"
    by (simp only: uint_nat)
  also have "\<dots> \<longleftrightarrow> odd (unat w)"
    by (simp only: even_of_nat)
  finally show ?thesis .
qed

lemma matrixmap_coords_formulas:
  "matrixmap_coords width panel_height half_panel_height serpentine i j =
     (if serpentine \<and> odd (unat (j div width))
      then (ucast (width - j mod width - 1),
            ucast ((j div width + 1) * panel_height - i - 1),
            ucast ((j div width + 1) * panel_height - i - 1) - ucast half_panel_height)
      else (ucast (j mod width),
            ucast (j div width * panel_height + i),
            ucast (j div width * panel_height + i) + ucast half_panel_height))"
proof -
  have par: "int_mod (ucast (j div width)) 2 \<noteq> 0 \<longleftrightarrow> odd (unat (j div width))"
    by (simp only: int_mod_2_nonzero odd_sint_ucast)
  have one: "(ucast (1 :: size_t) :: c_int) = 1"
    by simp
  have x: "(ucast (width - scast (ucast (j mod width) :: c_int) - 1) :: c_int)
      = ucast (width - j mod width - 1)"
    by (simp only: ucast_down_diff ucast_scast_ucast)
  have y0: "(ucast (scast (ucast (j div width) + 1 :: c_int) * panel_height - i - 1) :: c_int)
      = ucast ((j div width + 1) * panel_height - i - 1)"
    by (simp only: ucast_down_diff ucast_down_mult ucast_down_add ucast_scast_ucast one)
  have y1: "(ucast (scast (ucast (j div width) + 1 :: c_int) * panel_height - i
                 - half_panel_height - 1) :: c_int)
      = ucast ((j div width + 1) * panel_height - i - 1) - ucast half_panel_height"
    by (simp only: ucast_down_diff ucast_down_mult ucast_down_add ucast_scast_ucast one) simp
  have z0: "(ucast (scast (ucast (j div width) :: c_int) * panel_height + i) :: c_int)
      = ucast (j div width * panel_height + i)"
    by (simp only: ucast_down_mult ucast_down_add ucast_scast_ucast)
  have z1: "(ucast (scast (ucast (j div width) :: c_int) * panel_height + i
                 + half_panel_height) :: c_int)
      = ucast (j div width * panel_height + i) + ucast half_panel_height"
    by (simp only: ucast_down_mult ucast_down_add ucast_scast_ucast)
  show ?thesis
    unfolding matrixmap_coords_def Let_def
    by (simp only: par x y0 y1 z0 z1)
qed

subsection \<open>Errors and length\<close>

text \<open>
  Claim C7 (as amended). For up to 29 address lines, \<^verbatim>\<open>make_matrixmap\<close> throws the range
  error exactly when the height is not a multiple of \<open>2 * 2 ^ n_addr_lines\<close>. If the canvas
  has at most \<^verbatim>\<open>max_size()\<close> pixels, that is the only error: otherwise the function
  returns a map of length \<open>pixels_across * 2 * 2 ^ n_addr_lines\<close>, where \<^verbatim>\<open>pixels_across\<close>
  is \<open>width * (height / (2 * 2 ^ n_addr_lines))\<close>; this length is \<open>width * height\<close>. If
  the height is a multiple and \<^verbatim>\<open>width * height\<close>, as \<^verbatim>\<open>size_t\<close>, is above \<^verbatim>\<open>max_size()\<close>,
  the vector throws the length error.
\<close>

theorem make_matrixmap_error_and_length:
  assumes "unat n_addr_lines \<le> 29"
  shows "(make_matrixmap width height n_addr_lines serpentine cb = Inl range_error
           \<longleftrightarrow> unat height mod (2 * 2 ^ unat n_addr_lines) \<noteq> 0)
       \<and> (unat width * unat height \<le> unat max_size \<longrightarrow>
            ((\<exists>e. make_matrixmap width height n_addr_lines serpentine cb = Inl e)
               \<longleftrightarrow> unat height mod (2 * 2 ^ unat n_addr_lines) \<noteq> 0)
          \<and> (unat height mod (2 * 2 ^ unat n_addr_lines) = 0 \<longrightarrow>
               (\<exists>m. make_matrixmap width height n_addr_lines serpentine cb = Inr m
                  \<and> length m = unat width * (unat height div (2 * 2 ^ unat n_addr_lines))
                       * 2 * 2 ^ unat n_addr_lines
                  \<and> length m = unat width * unat height)))
       \<and> (unat height mod (2 * 2 ^ unat n_addr_lines) = 0 \<and> unat max_size < unat (width * height) \<longrightarrow>
            make_matrixmap width height n_addr_lines serpentine cb = Inl length_error)"
proof -
  define a where "a = unat n_addr_lines"
  define D where "D = (2 :: nat) * 2 ^ a"
  define W where "W = unat width"
  define H where "H = unat height"
  define r where "r = make_matrixmap width height n_addr_lines serpentine cb"
  define cells where "cells = (\<lambda>i. concat (map (\<lambda>j.
                case matrixmap_coords width (2 ^ Suc a) (2 ^ a) serpentine (of_nat i) (of_nat j) of
                  (x, y0, y1) \<Rightarrow> [cb (ucast width) (ucast height) x y0,
                                  cb (ucast width) (ucast height) x y1])
              [0..<W * (H div D)]))"
  have SD: "2 ^ Suc a = D"
    by (simp add: D_def)
  have res: "r =
     (if H mod D \<noteq> 0 then Inl range_error
      else if unat max_size < unat (width * height) then Inl length_error
      else if unat max_size < 2 ^ a * (unat (width * (height div 2 ^ Suc a)) * 2)
      then Inl length_error
      else Inr (concat (map (\<lambda>i. concat (map (\<lambda>j.
                case matrixmap_coords width (2 ^ Suc a) (2 ^ a) serpentine (of_nat i) (of_nat j) of
                  (x, y0, y1) \<Rightarrow> [cb (ucast width) (ucast height) x y0,
                                  cb (ucast width) (ucast height) x y1])
              [0..<unat (width * (height div 2 ^ Suc a))]))
            [0..<2 ^ a])))"
    unfolding r_def a_def H_def SD [symmetric] using assms by (rule make_matrixmap_result)
  have range: "r = Inl range_error \<longleftrightarrow> H mod D \<noteq> 0"
    unfolding res by simp
  have too_long: "r = Inl length_error" if "H mod D = 0" "unat max_size < unat (width * height)"
    unfolding res using that by simp
  have built: "r = Inr (concat (map cells [0..<2 ^ a]))" if "H mod D = 0" "W * H \<le> unat max_size"
    unfolding r_def cells_def SD [symmetric] a_def W_def H_def
    using assms that unfolding SD [symmetric] a_def W_def H_def by (rule make_matrixmap_built(2))
  have row: "length (cells i) = W * (H div D) * 2" for i
  proof -
    have "length (cells i) = length [0..<W * (H div D)] * 2"
      unfolding cells_def by (rule length_concat_uniform) (rule length_cell)
    then show ?thesis
      by simp
  qed
  have "length (concat (map cells [0..<2 ^ a])) = length [0..<(2 :: nat) ^ a] * (W * (H div D) * 2)"
    by (rule length_concat_uniform) (rule row)
  then have len: "length (concat (map cells [0..<2 ^ a])) = W * (H div D) * 2 * 2 ^ a"
    by simp
  have whole: "W * (H div D) * 2 * 2 ^ a = W * H" if "H mod D = 0"
  proof -
    have "H div D * D = H"
      using that by (simp add: mod_eq_0_iff_dvd)
    moreover have "W * (H div D) * 2 * 2 ^ a = W * (H div D * D)"
      by (simp add: D_def)
    ultimately show ?thesis
      by (simp only:)
  qed
  have ok: "\<exists>m. r = Inr m \<and> length m = W * (H div D) * 2 * 2 ^ a \<and> length m = W * H"
    if "H mod D = 0" "W * H \<le> unat max_size"
  proof -
    have "length (concat (map cells [0..<2 ^ a])) = W * H"
      by (simp only: len whole [OF that(1)])
    with built [OF that] len show ?thesis
      by blast
  qed
  have err: "(\<exists>e. r = Inl e) \<longleftrightarrow> H mod D \<noteq> 0" if "W * H \<le> unat max_size"
  proof (cases "H mod D = 0")
    case True
    with ok [OF True that] show ?thesis
      by auto
  next
    case False
    with range show ?thesis
      by auto
  qed
  have "(r = Inl range_error \<longleftrightarrow> H mod D \<noteq> 0)
       \<and> (W * H \<le> unat max_size \<longrightarrow>
            ((\<exists>e. r = Inl e) \<longleftrightarrow> H mod D \<noteq> 0)
          \<and> (H mod D = 0 \<longrightarrow>
               (\<exists>m. r = Inr m \<and> length m = W * (H div D) * 2 * 2 ^ a \<and> length m = W * H)))
       \<and> (H mod D = 0 \<and> unat max_size < unat (width * height) \<longrightarrow> r = Inl length_error)"
  proof (intro conjI impI)
    show "r = Inl range_error \<longleftrightarrow> H mod D \<noteq> 0"
      by (rule range)
    show "(\<exists>e. r = Inl e) \<longleftrightarrow> H mod D \<noteq> 0" if "W * H \<le> unat max_size"
      using that by (rule err)
    show "\<exists>m. r = Inr m \<and> length m = W * (H div D) * 2 * 2 ^ a \<and> length m = W * H"
      if "W * H \<le> unat max_size" "H mod D = 0"
      using that(2,1) by (rule ok)
    show "r = Inl length_error" if "H mod D = 0 \<and> unat max_size < unat (width * height)"
      using too_long [OF conjunct1 [OF that] conjunct2 [OF that]] .
  qed
  then show ?thesis
    unfolding r_def a_def D_def W_def H_def .
qed

theorem make_matrixmap_error_and_length_witness:
  "unat (4 :: size_t) \<le> 29
   \<and> (\<exists>m. make_matrixmap 64 64 4 True orientation_normal = Inr m \<and> length m = 4096)
   \<and> make_matrixmap 64 48 4 True orientation_normal = Inl range_error
   \<and> make_matrixmap (2 ^ 57) 64 4 True orientation_normal = Inl length_error"
proof -
  have h: "unat (4 :: size_t) \<le> 29"
    by simp
  have fits: "unat (64 :: size_t) * unat (64 :: size_t) \<le> unat max_size"
    by (simp add: max_size_def)
  have long: "unat max_size < unat (2 ^ 57 * 64 :: size_t)"
    by (simp add: max_size_def)
  from make_matrixmap_error_and_length [OF h, of 64 64 True orientation_normal]
    make_matrixmap_error_and_length [OF h, of 64 48 True orientation_normal]
    make_matrixmap_error_and_length [OF h, of "2 ^ 57" 64 True orientation_normal]
    fits long
  show ?thesis
    by simp
qed

text \<open>
  Claim C7 as stated covers every number of address lines and every width. With 30
  address lines the \<^verbatim>\<open>int\<close> shift \<^verbatim>\<open>2 << 30\<close> is \<open>- (2 ^ 31)\<close>, the panel height it is
  converted to is \<open>2 ^ 64 - 2 ^ 31\<close>, and a height of \<open>2 ^ 31\<close>, a multiple of
  \<open>2 * 2 ^ 30\<close>, is rejected. With a width of \<open>2 ^ 62\<close>, a height of 2 and no address line
  the height is a multiple of the panel height, and \<^verbatim>\<open>reserve\<close> throws: \<open>2 ^ 63\<close> elements
  are more than a vector can hold.
\<close>

theorem make_matrixmap_rejects_divisible_height:
  "make_matrixmap 0 (2 ^ 31) 30 False orientation_normal = Inl range_error
   \<and> unat (2 ^ 31 :: size_t) mod (2 * 2 ^ unat (30 :: size_t)) = 0
   \<and> make_matrixmap (2 ^ 62) 2 0 False orientation_normal = Inl length_error
   \<and> unat (2 :: size_t) mod (2 * 2 ^ unat (0 :: size_t)) = 0"
proof (intro conjI)
  have "(scast (push_bit (unat (30 :: size_t) mod 32) (2 :: c_int)) :: size_t) = 2 ^ 64 - 2 ^ 31"
    by simp
  then have "(2 ^ 31 :: size_t) mod scast (push_bit (unat (30 :: size_t) mod 32) (2 :: c_int)) \<noteq> 0"
    by simp
  then show "make_matrixmap 0 (2 ^ 31) 30 False orientation_normal = Inl range_error"
    unfolding make_matrixmap_def Let_def by (simp only: if_True not_False_eq_True)
next
  show "unat (2 ^ 31 :: size_t) mod (2 * 2 ^ unat (30 :: size_t)) = 0"
    by simp
next
  have ph: "(scast (push_bit (unat (0 :: size_t) mod 32) (2 :: c_int)) :: size_t) = 2"
    by simp
  have word_mod_self_2: "(2 :: size_t) mod 2 = 0"
    by simp
  have "reserve (2 ^ 62 * 2 :: size_t) ([] :: c_int list) = Inl length_error"
    by (simp add: reserve_def max_size_def word_less_nat_alt)
  then show "make_matrixmap (2 ^ 62) 2 0 False orientation_normal = Inl length_error"
    unfolding make_matrixmap_def Let_def ph by (simp only: word_mod_self_2 not_not refl if_False sum.case simp_thms)
next
  show "unat (2 :: size_t) mod (2 * 2 ^ unat (0 :: size_t)) = 0"
    by simp
qed

subsection \<open>A single vertical stack\<close>

lemma ucast_down_as_of_nat: "(ucast (w :: size_t) :: c_int) = of_nat (unat w)"
  by simp

lemma unat_of_nat64: "x < 2 ^ 64 \<Longrightarrow> unat (of_nat x :: size_t) = x"
  by (simp add: unat_of_nat)

lemma ucast_pow_down: "(ucast (2 ^ a :: size_t) :: c_int) = 2 ^ a"
proof -
  have "(ucast (of_nat (2 ^ a) :: size_t) :: c_int) = of_nat (2 ^ a)"
    by (rule ucast_of_nat_down)
  then show ?thesis
    by simp
qed

lemma column_in_first_panel:
  assumes "j < unat width"
  shows "(of_nat j :: size_t) div width = 0 \<and> (of_nat j :: size_t) mod width = of_nat j"
proof -
  have "unat width < 2 ^ 64"
    using unsigned_less [of width, where ?'a = nat] by simp
  with assms have j: "unat (of_nat j :: size_t) = j"
    by (intro unat_of_nat64) simp
  have "(of_nat j :: size_t) div width = of_nat (unat (of_nat j :: size_t) div unat width)"
    by (rule word_arith_nat_div)
  moreover have "(of_nat j :: size_t) mod width = of_nat (unat (of_nat j :: size_t) mod unat width)"
    by (rule word_arith_nat_mod)
  ultimately show ?thesis
    using assms by (simp only: j div_less mod_less) simp
qed

lemma single_stack_cell:
  assumes "j < unat width"
  shows "(case matrixmap_coords width panel_height (2 ^ a) False (of_nat i) (of_nat j) of
            (x, y0, y1) \<Rightarrow> [orientation_normal (ucast width) (ucast height) x y0,
                            orientation_normal (ucast width) (ucast height) x y1])
       = [of_nat (j + unat width * i), of_nat (j + unat width * (i + 2 ^ a))]"
proof -
  have c: "matrixmap_coords width panel_height (2 ^ a) False (of_nat i) (of_nat j)
      = (of_nat j, of_nat i, of_nat i + 2 ^ a)"
    using column_in_first_panel [OF assms]
    by (simp add: matrixmap_coords_formulas ucast_of_nat_down ucast_down_add ucast_pow_down)
  have "orientation_normal (ucast width) (ucast height) (of_nat j) (of_nat i)
      = (of_nat (j + unat width * i) :: c_int)"
    by (simp add: orientation_normal_def)
  moreover have "orientation_normal (ucast width) (ucast height) (of_nat j) (of_nat i + 2 ^ a)
      = (of_nat (j + unat width * (i + 2 ^ a)) :: c_int)"
    by (simp add: orientation_normal_def)
  ultimately show ?thesis
    by (simp only: c prod.case)
qed

text \<open>
  Claim C3 (as amended). For up to 29 address lines and every width, with serpentine
  disabled, the normal orientation, \<open>height = 2 * 2 ^ n_addr_lines\<close> (a single vertical
  stack) and a canvas of at most \<^verbatim>\<open>max_size()\<close> pixels, \<^verbatim>\<open>make_matrixmap\<close> returns a map
  that holds, for each row-select state \<open>i\<close> and column \<open>j\<close>, the row-major offsets of the
  two pixels that share the scan slot: entry \<open>2 * (i * width + j)\<close> is \<open>j + width * i\<close>,
  the pixel of row \<open>i\<close>, and the entry after it is \<open>j + width * (i + 2 ^ n_addr_lines)\<close>,
  the pixel half a panel below. The entries are \<^verbatim>\<open>int\<close> values; they are these numbers
  whenever \<open>width * height \<le> 2 ^ 31\<close>. The map has \<open>width * height\<close> entries.
\<close>

theorem make_matrixmap_single_stack:
  assumes "unat n_addr_lines \<le> 29" and "height = 2 * 2 ^ unat n_addr_lines"
      and "unat width * unat height \<le> unat max_size"
  shows "\<exists>m. make_matrixmap width height n_addr_lines False orientation_normal = Inr m
     \<and> m = concat (map (\<lambda>i. concat (map (\<lambda>j.
               [of_nat (j + unat width * i),
                of_nat (j + unat width * (i + 2 ^ unat n_addr_lines))])
             [0..<unat width])) [0..<2 ^ unat n_addr_lines])
     \<and> length m = unat width * unat height
     \<and> (\<forall>i j. i < 2 ^ unat n_addr_lines \<and> j < unat width \<longrightarrow>
            m ! (2 * (i * unat width + j)) = of_nat (j + unat width * i)
          \<and> m ! (2 * (i * unat width + j) + 1)
              = of_nat (j + unat width * (i + 2 ^ unat n_addr_lines)))
     \<and> (unat width * unat height \<le> 2 ^ 31 \<longrightarrow>
          (\<forall>i j. i < 2 ^ unat n_addr_lines \<and> j < unat width \<longrightarrow>
            sint (m ! (2 * (i * unat width + j))) = int (j + unat width * i)
          \<and> sint (m ! (2 * (i * unat width + j) + 1))
              = int (j + unat width * (i + 2 ^ unat n_addr_lines))))"
proof -
  define a where "a = unat n_addr_lines"
  define w where "w = unat width"
  define cell :: "nat \<Rightarrow> nat \<Rightarrow> c_int list"
    where "cell = (\<lambda>i j. [of_nat (j + w * i), of_nat (j + w * (i + 2 ^ a))])"
  define m where "m = concat (map (\<lambda>i. concat (map (cell i) [0..<w])) [0..<2 ^ a])"
  have a29: "a \<le> 29"
    using assms(1) by (simp add: a_def)
  have h: "height = 2 ^ Suc a"
    using assms(2) by (simp add: a_def)
  have uh: "unat height = 2 ^ Suc a"
    unfolding h using a29 by (intro unat_pow64) simp
  have divisible: "unat height mod 2 ^ Suc (unat n_addr_lines) = 0"
    using uh by (simp add: a_def)
  have hd: "unat height div 2 ^ Suc a = 1"
    unfolding uh by simp
  have res: "make_matrixmap width height n_addr_lines False orientation_normal =
      Inr (concat (map (\<lambda>i. concat (map (\<lambda>j.
                case matrixmap_coords width (2 ^ Suc a) (2 ^ a) False (of_nat i) (of_nat j) of
                  (x, y0, y1) \<Rightarrow> [orientation_normal (ucast width) (ucast height) x y0,
                                  orientation_normal (ucast width) (ucast height) x y1])
              [0..<w])) [0..<2 ^ a]))"
    using make_matrixmap_built(2) [OF assms(1) divisible assms(3), of False orientation_normal]
    by (simp only: a_def [symmetric] hd mult_1_right w_def [symmetric])
  have cells: "map (\<lambda>j.
                case matrixmap_coords width (2 ^ Suc a) (2 ^ a) False (of_nat i) (of_nat j) of
                  (x, y0, y1) \<Rightarrow> [orientation_normal (ucast width) (ucast height) x y0,
                                  orientation_normal (ucast width) (ucast height) x y1])
              [0..<w] = map (cell i) [0..<w]" for i
  proof (rule map_cong [OF refl])
    fix j
    assume "j \<in> set [0..<w]"
    then have "j < unat width"
      by (simp add: w_def)
    then show "(case matrixmap_coords width (2 ^ Suc a) (2 ^ a) False (of_nat i) (of_nat j) of
                  (x, y0, y1) \<Rightarrow> [orientation_normal (ucast width) (ucast height) x y0,
                                  orientation_normal (ucast width) (ucast height) x y1])
        = cell i j"
      unfolding cell_def w_def by (rule single_stack_cell)
  qed
  have made: "make_matrixmap width height n_addr_lines False orientation_normal = Inr m"
    unfolding m_def res by (simp only: cells)
  have len_cell: "length (cell i j) = 2" for i j
    by (simp add: cell_def)
  have len: "length m = w * unat height"
    unfolding m_def uh using length_grid [of cell 2 w "2 ^ a"] len_cell by simp
  have nth0: "m ! (2 * (i * w + j)) = of_nat (j + w * i)"
    and nth1: "m ! (2 * (i * w + j) + 1) = of_nat (j + w * (i + 2 ^ a))"
    if "i < 2 ^ a" "j < w" for i j
  proof -
    have "m ! (2 * (i * w + j) + 0) = cell i j ! 0"
      unfolding m_def using that len_cell by (intro nth_grid) simp_all
    then show "m ! (2 * (i * w + j)) = of_nat (j + w * i)"
      by (simp add: cell_def)
    have "m ! (2 * (i * w + j) + 1) = cell i j ! 1"
      unfolding m_def using that len_cell by (intro nth_grid) simp_all
    then show "m ! (2 * (i * w + j) + 1) = of_nat (j + w * (i + 2 ^ a))"
      by (simp add: cell_def)
  qed
  have exact: "sint (m ! (2 * (i * w + j))) = int (j + w * i)
      \<and> sint (m ! (2 * (i * w + j) + 1)) = int (j + w * (i + 2 ^ a))"
    if fits: "w * unat height \<le> 2 ^ 31" and ij: "i < 2 ^ a" "j < w" for i j
  proof -
    have "j + w * (i + 2 ^ a) < w + w * (i + 2 ^ a)"
      using ij(2) by simp
    also have "\<dots> = w * (Suc i + 2 ^ a)"
      by simp
    also have "\<dots> \<le> w * (2 ^ a + 2 ^ a)"
      using ij(1) by (intro mult_le_mono2) simp
    also have "\<dots> = w * unat height"
      by (simp add: uh)
    finally have b1: "j + w * (i + 2 ^ a) < 2 ^ 31"
      using fits by simp
    then have b0: "j + w * i < 2 ^ 31"
      by (simp add: add_mult_distrib2)
    show ?thesis
      using b0 b1 ij by (simp only: nth0 nth1 sint_of_nat32)
  qed
  show ?thesis
    unfolding a_def [symmetric] w_def [symmetric]
    using made len nth0 nth1 exact
    by (intro exI [of _ m]) (simp add: m_def cell_def)
qed

theorem make_matrixmap_single_stack_witness:
  "unat (0 :: size_t) \<le> 29 \<and> (2 :: size_t) = 2 * 2 ^ unat (0 :: size_t)
   \<and> unat (2 :: size_t) * unat (2 :: size_t) \<le> unat max_size
   \<and> make_matrixmap 2 2 0 False orientation_normal = Inr [0, 2, 1, 3]"
proof -
  have h: "unat (0 :: size_t) \<le> 29" "(2 :: size_t) = 2 * 2 ^ unat (0 :: size_t)"
      "unat (2 :: size_t) * unat (2 :: size_t) \<le> unat max_size"
    by (simp_all add: max_size_def)
  from make_matrixmap_single_stack [OF h]
  obtain m where "make_matrixmap 2 2 0 False orientation_normal = Inr m"
    and "m = concat (map (\<lambda>i. concat (map (\<lambda>j.
               [of_nat (j + unat (2 :: size_t) * i),
                of_nat (j + unat (2 :: size_t) * (i + 2 ^ unat (0 :: size_t)))])
             [0..<unat (2 :: size_t)])) [0..<2 ^ unat (0 :: size_t)])"
    by blast
  with h(3) show ?thesis
    by (simp add: upt_rec)
qed

text \<open>
  Claim C3 as stated says that the map is the identity sequence \<open>0, 1, 2, \<dots>\<close>. For a
  2 by 2 canvas with no address line it is \<open>0, 2, 1, 3\<close>.
\<close>

theorem make_matrixmap_single_stack_not_identity:
  "make_matrixmap 2 2 0 False orientation_normal = Inr [0, 2, 1, 3]
   \<and> make_matrixmap 2 2 0 False orientation_normal \<noteq> Inr [0, 1, 2, 3]"
proof -
  have "make_matrixmap 2 2 0 False orientation_normal = Inr [0, 2, 1, 3]"
    by code_simp
  then show ?thesis
    by simp
qed

subsection \<open>Serpentine chaining\<close>

lemma make_matrixmap_nth:
  assumes a29: "unat n_addr_lines \<le> 29"
      and divisible: "unat height mod (2 * 2 ^ unat n_addr_lines) = 0"
      and fits: "unat width * unat height \<le> unat max_size"
      and i: "unat i < 2 ^ unat n_addr_lines"
      and j: "unat j < unat width * (unat height div (2 * 2 ^ unat n_addr_lines))"
      and c: "matrixmap_coords width (2 * 2 ^ unat n_addr_lines) (2 ^ unat n_addr_lines)
                serpentine i j = (x, y0, y1)"
  shows "\<exists>m. make_matrixmap width height n_addr_lines serpentine cb = Inr m
       \<and> length m = unat width * unat height
       \<and> m ! (2 * (unat i * (unat width * (unat height div (2 * 2 ^ unat n_addr_lines))) + unat j))
           = cb (ucast width) (ucast height) x y0
       \<and> m ! (2 * (unat i * (unat width * (unat height div (2 * 2 ^ unat n_addr_lines))) + unat j) + 1)
           = cb (ucast width) (ucast height) x y1"
proof -
  define a where "a = unat n_addr_lines"
  define P where "P = unat width * (unat height div 2 ^ Suc a)"
  define cell where "cell = (\<lambda>i j.
      case matrixmap_coords width (2 ^ Suc a) (2 ^ a) serpentine (of_nat i) (of_nat j) of
        (x, y0, y1) \<Rightarrow> [cb (ucast width) (ucast height) x y0,
                        cb (ucast width) (ucast height) x y1])"
  define m where "m = concat (map (\<lambda>i. concat (map (cell i) [0..<P])) [0..<2 ^ a])"
  have len_cell: "length (cell i j) = 2" for i j
    unfolding cell_def by (rule length_cell)
  have d: "unat height mod 2 ^ Suc (unat n_addr_lines) = 0"
    using divisible by simp
  have made: "make_matrixmap width height n_addr_lines serpentine cb = Inr m"
    unfolding m_def cell_def P_def a_def using a29 d fits by (rule make_matrixmap_built(2))
  have hd: "unat height div 2 ^ Suc a * 2 ^ Suc a = unat height"
    using d by (simp add: a_def mod_eq_0_iff_dvd)
  have "length m = 2 ^ a * (P * 2)"
    unfolding m_def using len_cell by (rule length_grid)
  also have "\<dots> = unat width * (unat height div 2 ^ Suc a * 2 ^ Suc a)"
    by (simp add: P_def)
  finally have len: "length m = unat width * unat height"
    by (simp only: hd)
  have ij: "unat i < 2 ^ a" "unat j < P"
    using i j by (simp_all add: a_def P_def)
  have c': "matrixmap_coords width (2 * 2 ^ a) (2 ^ a) serpentine i j = (x, y0, y1)"
    using c by (simp only: a_def)
  have here: "cell (unat i) (unat j) = [cb (ucast width) (ucast height) x y0,
                        cb (ucast width) (ucast height) x y1]"
    unfolding cell_def by (simp add: c')
  have "m ! (2 * (unat i * P + unat j) + 0) = cell (unat i) (unat j) ! 0"
    unfolding m_def using ij len_cell by (intro nth_grid) simp_all
  moreover have "m ! (2 * (unat i * P + unat j) + 1) = cell (unat i) (unat j) ! 1"
    unfolding m_def using ij len_cell by (intro nth_grid) simp_all
  ultimately have nth: "m ! (2 * (unat i * P + unat j)) = cb (ucast width) (ucast height) x y0"
      "m ! (2 * (unat i * P + unat j) + 1) = cb (ucast width) (ucast height) x y1"
    by (simp_all add: here)
  have P: "unat width * (unat height div (2 * 2 ^ unat n_addr_lines)) = P"
    by (simp add: P_def a_def)
  show ?thesis
    unfolding P using made len nth by blast
qed

lemma sint_ucast_of_nat: "n < 2 ^ 31 \<Longrightarrow> sint (ucast (of_nat n :: size_t) :: c_int) = int n"
  by (simp only: ucast_of_nat_down sint_of_nat32)

lemma of_nat_diff_word: "b \<le> a \<Longrightarrow> (of_nat a :: 'a :: len word) - of_nat b = of_nat (a - b)"
  by (simp add: of_nat_diff)

lemma matrixmap_coords_numbers:
  fixes W H a I J :: nat
  defines "PH \<equiv> 2 * 2 ^ a" and "HP \<equiv> 2 ^ a"
  defines "PN \<equiv> J div W" and "C \<equiv> J mod W"
  assumes "H mod PH = 0" and "I < HP" and "J < W * (H div PH)"
  shows "C < W \<and> PN * PH + I + HP < H
       \<and> I + 1 + HP \<le> (PN + 1) * PH \<and> (PN + 1) * PH \<le> H"
proof -
  have W: "0 < W"
    using assms(7) by (cases W) simp_all
  then have C: "C < W"
    by (simp add: C_def)
  have "PN < H div PH"
    unfolding PN_def using assms(7) W by (simp add: less_mult_imp_div_less mult.commute)
  then have "PN + 1 \<le> H div PH"
    by simp
  then have "(PN + 1) * PH \<le> (H div PH) * PH"
    by (rule mult_le_mono1)
  also have "\<dots> = H"
    using assms(5) by (simp add: mod_eq_0_iff_dvd)
  finally have top: "(PN + 1) * PH \<le> H" .
  have php: "PH = HP + HP"
    by (simp add: PH_def HP_def)
  have lo: "PN * PH + I + HP < (PN + 1) * PH"
    using assms(6) by (simp add: php algebra_simps)
  have hi: "I + 1 + HP \<le> (PN + 1) * PH"
    using assms(6) by (simp add: php algebra_simps)
  show ?thesis
    using C lo hi top by simp
qed

lemma matrixmap_coords_exact:
  fixes width height i j :: size_t
  defines "W \<equiv> unat width" and "H \<equiv> unat height" and "I \<equiv> unat i" and "J \<equiv> unat j"
  assumes "H mod (2 * 2 ^ a) = 0" and "W \<le> 2 ^ 31" and "H \<le> 2 ^ 31"
      and "I < 2 ^ a" and "J < W * (H div (2 * 2 ^ a))"
      and c: "matrixmap_coords width (2 ^ Suc a) (2 ^ a) serpentine i j = (x, y0, y1)"
  shows "(\<not> (serpentine \<and> odd (J div W)) \<longrightarrow>
            sint x = int (J mod W)
          \<and> sint y0 = int (J div W * (2 * 2 ^ a) + I)
          \<and> sint y1 = int (J div W * (2 * 2 ^ a) + I + 2 ^ a))
       \<and> (serpentine \<and> odd (J div W) \<longrightarrow>
            sint x = int (W - J mod W - 1)
          \<and> sint y0 = int ((J div W + 1) * (2 * 2 ^ a) - I - 1)
          \<and> sint y1 = int ((J div W + 1) * (2 * 2 ^ a) - I - 1 - 2 ^ a))"
proof -
  define PH :: nat where "PH = 2 * 2 ^ a"
  define HP :: nat where "HP = 2 ^ a"
  define PN where "PN = J div W"
  define C where "C = J mod W"
  have nums: "C < W" "W \<le> 2 ^ 31" "H \<le> 2 ^ 31" "PN * PH + I + HP < H"
      "I + 1 + HP \<le> (PN + 1) * PH" "(PN + 1) * PH \<le> H"
    using matrixmap_coords_numbers [where H = H and a = a and W = W and I = I and J = J] assms(5-9)
    unfolding PH_def HP_def PN_def C_def by simp_all
  have w: "width = of_nat W" and i: "i = of_nat I"
    by (simp_all add: W_def I_def)
  have pn: "j div width = of_nat PN"
    unfolding PN_def J_def W_def by (rule word_arith_nat_div)
  have cc: "j mod width = of_nat C"
    unfolding C_def J_def W_def by (rule word_arith_nat_mod)
  have ph: "(2 ^ Suc a :: size_t) = of_nat PH"
    by (simp add: PH_def)
  have hp: "(ucast (2 ^ a :: size_t) :: c_int) = of_nat HP"
    by (simp add: HP_def ucast_pow_down)
  have ev_y0: "j div width * 2 ^ Suc a + i = of_nat (PN * PH + I)"
    by (simp only: pn ph i [symmetric] of_nat_add of_nat_mult)
  have od_x: "width - j mod width - 1 = of_nat (W - C - 1)"
  proof -
    have "width - j mod width - 1 = of_nat W - of_nat C - of_nat 1"
      by (simp only: cc of_nat_1 w [symmetric])
    also have "(of_nat W :: size_t) - of_nat C = of_nat (W - C)"
      using nums(1) by (intro of_nat_diff_word) simp
    also have "(of_nat (W - C) :: size_t) - of_nat 1 = of_nat (W - C - 1)"
      using nums(1) by (intro of_nat_diff_word) simp
    finally show ?thesis .
  qed
  have od_y0: "(j div width + 1) * 2 ^ Suc a - i - 1 = of_nat ((PN + 1) * PH - I - 1)"
  proof -
    have "(j div width + 1) * 2 ^ Suc a - i - 1 = of_nat ((PN + 1) * PH) - of_nat I - of_nat 1"
      by (simp only: pn ph i [symmetric] of_nat_add of_nat_mult of_nat_1)
    also have "(of_nat ((PN + 1) * PH) :: size_t) - of_nat I = of_nat ((PN + 1) * PH - I)"
      using nums(5) by (intro of_nat_diff_word) simp
    also have "(of_nat ((PN + 1) * PH - I) :: size_t) - of_nat 1 = of_nat ((PN + 1) * PH - I - 1)"
      using nums(5) by (intro of_nat_diff_word) simp
    finally show ?thesis .
  qed
  have b: "C < 2 ^ 31" "PN * PH + I < 2 ^ 31" "PN * PH + I + HP < 2 ^ 31"
      "W - C - 1 < 2 ^ 31" "(PN + 1) * PH - I - 1 < 2 ^ 31" "(PN + 1) * PH - I - 1 - HP < 2 ^ 31"
    using nums by simp_all
  have even_case: "sint x = int C \<and> sint y0 = int (PN * PH + I) \<and> sint y1 = int (PN * PH + I + HP)"
    if "\<not> (serpentine \<and> odd PN)"
  proof -
    have par: "\<not> (serpentine \<and> odd (unat (j div width)))"
      using that by (simp add: PN_def J_def W_def unat_div)
    from c [symmetric] have "x = ucast (of_nat C :: size_t)" "y0 = ucast (of_nat (PN * PH + I) :: size_t)"
        "y1 = ucast (of_nat (PN * PH + I) :: size_t) + of_nat HP"
      unfolding matrixmap_coords_formulas using par by (simp_all only: if_False simp_thms cc ev_y0 hp prod.inject)
    moreover have "(ucast (of_nat (PN * PH + I) :: size_t) :: c_int) + of_nat HP
        = ucast (of_nat (PN * PH + I + HP) :: size_t)"
    proof -
      have "(of_nat (PN * PH + I) :: c_int) + of_nat HP = of_nat (PN * PH + I + HP)"
        by (rule of_nat_add [symmetric])
      then show ?thesis
        by (simp only: ucast_of_nat_down)
    qed
    ultimately show ?thesis
      using b by (simp only: sint_ucast_of_nat)
  qed
  have odd_case: "sint x = int (W - C - 1) \<and> sint y0 = int ((PN + 1) * PH - I - 1)
      \<and> sint y1 = int ((PN + 1) * PH - I - 1 - HP)"
    if "serpentine \<and> odd PN"
  proof -
    have par: "serpentine \<and> odd (unat (j div width))"
      using that by (simp add: PN_def J_def W_def unat_div)
    from c [symmetric] have "x = ucast (of_nat (W - C - 1) :: size_t)"
        "y0 = ucast (of_nat ((PN + 1) * PH - I - 1) :: size_t)"
        "y1 = ucast (of_nat ((PN + 1) * PH - I - 1) :: size_t) - of_nat HP"
      unfolding matrixmap_coords_formulas using par by (simp_all only: if_True simp_thms od_x od_y0 hp prod.inject)
    moreover have "(ucast (of_nat ((PN + 1) * PH - I - 1) :: size_t) :: c_int) - of_nat HP
        = ucast (of_nat ((PN + 1) * PH - I - 1 - HP) :: size_t)"
    proof -
      have "HP \<le> (PN + 1) * PH - I - 1"
        using nums(5) by simp
      then have "(of_nat ((PN + 1) * PH - I - 1) :: c_int) - of_nat HP
          = of_nat ((PN + 1) * PH - I - 1 - HP)"
        by (rule of_nat_diff_word)
      then show ?thesis
        by (simp only: ucast_of_nat_down)
    qed
    ultimately show ?thesis
      using b by (simp only: sint_ucast_of_nat)
  qed
  show ?thesis
    using even_case odd_case unfolding PN_def C_def PH_def HP_def by blast
qed

lemma matrixmap_coords_exact_int:
  fixes width height i j :: size_t
  defines "W \<equiv> unat width" and "H \<equiv> unat height" and "I \<equiv> unat i" and "J \<equiv> unat j"
  assumes "H mod (2 * 2 ^ a) = 0" and "W \<le> 2 ^ 31" and "H \<le> 2 ^ 31"
      and "I < 2 ^ a" and "J < W * (H div (2 * 2 ^ a))"
      and c: "matrixmap_coords width (2 ^ Suc a) (2 ^ a) serpentine i j = (x, y0, y1)"
  shows "(\<not> (serpentine \<and> odd (J div W)) \<longrightarrow>
            sint x = int (J mod W)
          \<and> sint y0 = int (J div W) * (2 * 2 ^ a) + int I
          \<and> sint y1 = sint y0 + 2 ^ a)
       \<and> (serpentine \<and> odd (J div W) \<longrightarrow>
            sint x = int W - int (J mod W) - 1
          \<and> sint y0 = (int (J div W) + 1) * (2 * 2 ^ a) - int I - 1
          \<and> sint y1 = sint y0 - 2 ^ a)
       \<and> 0 \<le> sint x \<and> sint x < int W
       \<and> 0 \<le> sint y0 \<and> sint y0 < int H \<and> 0 \<le> sint y1 \<and> sint y1 < int H"
proof -
  have nums: "J mod W < W" "J div W * (2 * 2 ^ a) + I + 2 ^ a < H"
      "I + 1 + 2 ^ a \<le> (J div W + 1) * (2 * 2 ^ a)" "(J div W + 1) * (2 * 2 ^ a) \<le> H"
    using matrixmap_coords_numbers [where H = H and a = a and W = W and I = I and J = J] assms(5-9) by simp_all
  have ex: "(\<not> (serpentine \<and> odd (J div W)) \<longrightarrow>
            sint x = int (J mod W)
          \<and> sint y0 = int (J div W * (2 * 2 ^ a) + I)
          \<and> sint y1 = int (J div W * (2 * 2 ^ a) + I + 2 ^ a))
       \<and> (serpentine \<and> odd (J div W) \<longrightarrow>
            sint x = int (W - J mod W - 1)
          \<and> sint y0 = int ((J div W + 1) * (2 * 2 ^ a) - I - 1)
          \<and> sint y1 = int ((J div W + 1) * (2 * 2 ^ a) - I - 1 - 2 ^ a))"
    unfolding W_def H_def I_def J_def
    using assms(5-9) c unfolding W_def H_def I_def J_def by (rule matrixmap_coords_exact)
  show ?thesis
  proof (cases "serpentine \<and> odd (J div W)")
    case False
    with ex have v: "sint x = int (J mod W)" "sint y0 = int (J div W * (2 * 2 ^ a) + I)"
        "sint y1 = int (J div W * (2 * 2 ^ a) + I + 2 ^ a)"
      by blast+
    have "sint y0 = int (J div W) * (2 * 2 ^ a) + int I" "sint y1 = sint y0 + 2 ^ a"
      unfolding v by simp_all
    moreover have "J div W * (2 * 2 ^ a) + I < H"
      using nums(2) by simp
    then have "0 \<le> sint x" "sint x < int W" "0 \<le> sint y0" "sint y0 < int H"
        "0 \<le> sint y1" "sint y1 < int H"
      unfolding v using nums(1,2) by (simp_all only: of_nat_less_iff of_nat_0_le_iff)
    ultimately show ?thesis
      using False v(1) by blast
  next
    case True
    with ex have v: "sint x = int (W - J mod W - 1)"
        "sint y0 = int ((J div W + 1) * (2 * 2 ^ a) - I - 1)"
        "sint y1 = int ((J div W + 1) * (2 * 2 ^ a) - I - 1 - 2 ^ a)"
      by blast+
    have x: "int (W - J mod W - 1) = int W - int (J mod W) - 1"
      using nums(1) by (simp add: of_nat_diff)
    have y0: "int ((J div W + 1) * (2 * 2 ^ a) - I - 1) = (int (J div W) + 1) * (2 * 2 ^ a) - int I - 1"
    proof -
      have "I + 1 \<le> (J div W + 1) * (2 * 2 ^ a)"
        using nums(3) by simp
      then have "int ((J div W + 1) * (2 * 2 ^ a) - I - 1)
          = int ((J div W + 1) * (2 * 2 ^ a)) - int I - 1"
        by linarith
      also have "int ((J div W + 1) * (2 * 2 ^ a)) = (int (J div W) + 1) * (2 * 2 ^ a)"
        by (simp add: algebra_simps)
      finally show ?thesis .
    qed
    have y1: "int ((J div W + 1) * (2 * 2 ^ a) - I - 1 - 2 ^ a)
        = int ((J div W + 1) * (2 * 2 ^ a) - I - 1) - 2 ^ a"
    proof -
      have "2 ^ a \<le> (J div W + 1) * (2 * 2 ^ a) - I - 1"
        using nums(3) by simp
      then have "int ((J div W + 1) * (2 * 2 ^ a) - I - 1 - 2 ^ a)
          = int ((J div W + 1) * (2 * 2 ^ a) - I - 1) - int (2 ^ a)"
        by (rule of_nat_diff)
      then show ?thesis
        by simp
    qed
    have "sint x = int W - int (J mod W) - 1"
        "sint y0 = (int (J div W) + 1) * (2 * 2 ^ a) - int I - 1" "sint y1 = sint y0 - 2 ^ a"
      unfolding v using x y0 y1 by simp_all
    moreover have "W - J mod W - 1 < W" "(J div W + 1) * (2 * 2 ^ a) - I - 1 < H"
        "(J div W + 1) * (2 * 2 ^ a) - I - 1 - 2 ^ a < H"
      using nums by simp_all
    then have "0 \<le> sint x" "sint x < int W" "0 \<le> sint y0" "sint y0 < int H"
        "0 \<le> sint y1" "sint y1 < int H"
      unfolding v by (simp_all only: of_nat_less_iff of_nat_0_le_iff)
    ultimately show ?thesis
      using True by blast
  qed
qed

text \<open>
  Claim C6 (as amended). Take up to 29 address lines, a width and a height of at most
  \<open>2 ^ 31\<close>, the height a multiple of the panel height, and a canvas of at most
  \<^verbatim>\<open>max_size()\<close> pixels. With serpentine enabled \<^verbatim>\<open>make_matrixmap\<close> returns a map, and for
  every row-select state \<open>i\<close> and column position \<open>j\<close> its two entries are the callback
  applied to \<open>(x, y0)\<close> and \<open>(x, y1)\<close>, the \<^verbatim>\<open>int\<close> values computed in the loop. If the
  panel index \<open>j / width\<close> is even they are those of the non-serpentine case:
  \<open>x = j mod width\<close>, \<open>y0 = panel_index * panel_height + i\<close>,
  \<open>y1 = y0 + half_panel_height\<close>. If it is odd, \<open>x = width - j mod width - 1\<close>,
  \<open>y0 = (panel_index + 1) * panel_height - i - 1\<close> and \<open>y1 = y0 - half_panel_height\<close>.
  In both cases \<open>x\<close> is a column and \<open>y0\<close>, \<open>y1\<close> are rows of the canvas.
\<close>

theorem make_matrixmap_serpentine:
  assumes "unat n_addr_lines \<le> 29"
      and "unat height mod (2 * 2 ^ unat n_addr_lines) = 0"
      and "unat width \<le> 2 ^ 31" and "unat height \<le> 2 ^ 31"
      and "unat width * unat height \<le> unat max_size"
      and "unat i < 2 ^ unat n_addr_lines"
      and "unat j < unat width * (unat height div (2 * 2 ^ unat n_addr_lines))"
  shows "\<exists>m x y0 y1.
        make_matrixmap width height n_addr_lines True cb = Inr m
      \<and> matrixmap_coords width (2 * 2 ^ unat n_addr_lines) (2 ^ unat n_addr_lines) True i j
          = (x, y0, y1)
      \<and> m ! (2 * (unat i * (unat width * (unat height div (2 * 2 ^ unat n_addr_lines))) + unat j))
          = cb (ucast width) (ucast height) x y0
      \<and> m ! (2 * (unat i * (unat width * (unat height div (2 * 2 ^ unat n_addr_lines))) + unat j) + 1)
          = cb (ucast width) (ucast height) x y1
      \<and> (even (unat j div unat width) \<longrightarrow>
            matrixmap_coords width (2 * 2 ^ unat n_addr_lines) (2 ^ unat n_addr_lines) False i j
              = (x, y0, y1)
          \<and> sint x = int (unat j mod unat width)
          \<and> sint y0 = int (unat j div unat width) * (2 * 2 ^ unat n_addr_lines) + int (unat i)
          \<and> sint y1 = sint y0 + 2 ^ unat n_addr_lines)
      \<and> (odd (unat j div unat width) \<longrightarrow>
            sint x = int (unat width) - int (unat j mod unat width) - 1
          \<and> sint y0 = (int (unat j div unat width) + 1) * (2 * 2 ^ unat n_addr_lines)
                      - int (unat i) - 1
          \<and> sint y1 = sint y0 - 2 ^ unat n_addr_lines)
      \<and> 0 \<le> sint x \<and> sint x < int (unat width)
      \<and> 0 \<le> sint y0 \<and> sint y0 < int (unat height)
      \<and> 0 \<le> sint y1 \<and> sint y1 < int (unat height)"
proof -
  define a where "a = unat n_addr_lines"
  define PH :: size_t where "PH = 2 * 2 ^ a"
  define HP :: size_t where "HP = 2 ^ a"
  obtain x y0 y1 where c: "matrixmap_coords width PH HP True i j = (x, y0, y1)"
    by (cases "matrixmap_coords width PH HP True i j") blast
  have c2: "matrixmap_coords width (2 * 2 ^ unat n_addr_lines) (2 ^ unat n_addr_lines) True i j
      = (x, y0, y1)"
    using c by (simp only: PH_def HP_def a_def)
  from make_matrixmap_nth [OF assms(1,2,5,6,7) c2, of cb]
  obtain m where made: "make_matrixmap width height n_addr_lines True cb = Inr m"
    and n0: "m ! (2 * (unat i * (unat width * (unat height div (2 * 2 ^ a))) + unat j))
          = cb (ucast width) (ucast height) x y0"
    and n1: "m ! (2 * (unat i * (unat width * (unat height div (2 * 2 ^ a))) + unat j) + 1)
          = cb (ucast width) (ucast height) x y1"
    unfolding a_def by blast
  have pn: "unat (j div width) = unat j div unat width"
    by (rule unat_div)
  have ev: "matrixmap_coords width PH HP False i j = (x, y0, y1)"
    if "even (unat j div unat width)"
    using that c by (auto simp add: matrixmap_coords_formulas pn)
  have c3: "matrixmap_coords width (2 ^ Suc a) (2 ^ a) True i j = (x, y0, y1)"
    using c by (simp add: PH_def HP_def)
  have exact: "(\<not> (True \<and> odd (unat j div unat width)) \<longrightarrow>
            sint x = int (unat j mod unat width)
          \<and> sint y0 = int (unat j div unat width) * (2 * 2 ^ a) + int (unat i)
          \<and> sint y1 = sint y0 + 2 ^ a)
       \<and> (True \<and> odd (unat j div unat width) \<longrightarrow>
            sint x = int (unat width) - int (unat j mod unat width) - 1
          \<and> sint y0 = (int (unat j div unat width) + 1) * (2 * 2 ^ a) - int (unat i) - 1
          \<and> sint y1 = sint y0 - 2 ^ a)
       \<and> 0 \<le> sint x \<and> sint x < int (unat width)
       \<and> 0 \<le> sint y0 \<and> sint y0 < int (unat height) \<and> 0 \<le> sint y1 \<and> sint y1 < int (unat height)"
    using assms(2,3,4,6,7) c3 unfolding a_def [symmetric] by (rule matrixmap_coords_exact_int)
  have "make_matrixmap width height n_addr_lines True cb = Inr m
      \<and> matrixmap_coords width PH HP True i j = (x, y0, y1)
      \<and> m ! (2 * (unat i * (unat width * (unat height div (2 * 2 ^ a))) + unat j))
          = cb (ucast width) (ucast height) x y0
      \<and> m ! (2 * (unat i * (unat width * (unat height div (2 * 2 ^ a))) + unat j) + 1)
          = cb (ucast width) (ucast height) x y1
      \<and> (even (unat j div unat width) \<longrightarrow>
            matrixmap_coords width PH HP False i j = (x, y0, y1)
          \<and> sint x = int (unat j mod unat width)
          \<and> sint y0 = int (unat j div unat width) * (2 * 2 ^ a) + int (unat i)
          \<and> sint y1 = sint y0 + 2 ^ a)
      \<and> (odd (unat j div unat width) \<longrightarrow>
            sint x = int (unat width) - int (unat j mod unat width) - 1
          \<and> sint y0 = (int (unat j div unat width) + 1) * (2 * 2 ^ a) - int (unat i) - 1
          \<and> sint y1 = sint y0 - 2 ^ a)
      \<and> 0 \<le> sint x \<and> sint x < int (unat width)
      \<and> 0 \<le> sint y0 \<and> sint y0 < int (unat height)
      \<and> 0 \<le> sint y1 \<and> sint y1 < int (unat height)"
    using made c n0 n1 ev exact by blast
  then show ?thesis
    unfolding PH_def HP_def a_def by blast
qed

theorem make_matrixmap_serpentine_witness:
  "unat (0 :: size_t) \<le> 29 \<and> unat (4 :: size_t) mod (2 * 2 ^ unat (0 :: size_t)) = 0
   \<and> unat (2 :: size_t) \<le> 2 ^ 31 \<and> unat (4 :: size_t) \<le> 2 ^ 31
   \<and> unat (2 :: size_t) * unat (4 :: size_t) \<le> unat max_size
   \<and> unat (0 :: size_t) < 2 ^ unat (0 :: size_t)
   \<and> unat (2 :: size_t) < unat (2 :: size_t) * (unat (4 :: size_t) div (2 * 2 ^ unat (0 :: size_t)))
   \<and> odd (unat (2 :: size_t) div unat (2 :: size_t))
   \<and> make_matrixmap 2 4 0 True orientation_normal = Inr [0, 2, 1, 3, 7, 5, 6, 4]
   \<and> matrixmap_coords 2 2 1 True 0 2 = (1, 3, 2)
   \<and> [0, 2, 1, 3, 7, 5, 6, 4 :: c_int] ! 4 = orientation_normal 2 4 1 3
   \<and> [0, 2, 1, 3, 7, 5, 6, 4 :: c_int] ! 5 = orientation_normal 2 4 1 2"
proof -
  have h: "unat (0 :: size_t) \<le> 29" "unat (4 :: size_t) mod (2 * 2 ^ unat (0 :: size_t)) = 0"
      "unat (2 :: size_t) \<le> 2 ^ 31" "unat (4 :: size_t) \<le> 2 ^ 31"
      "unat (2 :: size_t) * unat (4 :: size_t) \<le> unat max_size"
      "unat (0 :: size_t) < 2 ^ unat (0 :: size_t)"
      "unat (2 :: size_t) < unat (2 :: size_t) * (unat (4 :: size_t) div (2 * 2 ^ unat (0 :: size_t)))"
    by (simp_all add: max_size_def)
  have made: "make_matrixmap 2 4 0 True orientation_normal = Inr [0, 2, 1, 3, 7, 5, 6, 4]"
    by code_simp
  from make_matrixmap_serpentine [OF h, of orientation_normal]
  obtain m x y0 y1 where m: "make_matrixmap 2 4 0 True orientation_normal = Inr m"
    and c: "matrixmap_coords 2 (2 * 2 ^ unat (0 :: size_t)) (2 ^ unat (0 :: size_t)) True 0 2
              = (x, y0, y1)"
    and n0: "m ! (2 * (unat (0 :: size_t) * (unat (2 :: size_t)
                * (unat (4 :: size_t) div (2 * 2 ^ unat (0 :: size_t)))) + unat (2 :: size_t)))
          = orientation_normal (ucast (2 :: size_t)) (ucast (4 :: size_t)) x y0"
    and n1: "m ! (2 * (unat (0 :: size_t) * (unat (2 :: size_t)
                * (unat (4 :: size_t) div (2 * 2 ^ unat (0 :: size_t)))) + unat (2 :: size_t)) + 1)
          = orientation_normal (ucast (2 :: size_t)) (ucast (4 :: size_t)) x y1"
    and od: "odd (unat (2 :: size_t) div unat (2 :: size_t)) \<longrightarrow>
            sint x = int (unat (2 :: size_t)) - int (unat (2 :: size_t) mod unat (2 :: size_t)) - 1
          \<and> sint y0 = (int (unat (2 :: size_t) div unat (2 :: size_t)) + 1)
                         * (2 * 2 ^ unat (0 :: size_t)) - int (unat (0 :: size_t)) - 1
          \<and> sint y1 = sint y0 - 2 ^ unat (0 :: size_t)"
    by blast
  from od have "sint x = 1" "sint y0 = 3" "sint y1 = 2"
    by simp_all
  then have "sint x = sint (1 :: c_int)" "sint y0 = sint (3 :: c_int)" "sint y1 = sint (2 :: c_int)"
    by simp_all
  then have xy: "x = 1" "y0 = 3" "y1 = 2"
    by (simp_all only: signed_word_eqI)
  from m made have mm: "m = [0, 2, 1, 3, 7, 5, 6, 4]"
    by simp
  from c n0 n1 made h show ?thesis
    unfolding xy mm by simp
qed

text \<open>
  Claim C6 as stated covers every canvas. A canvas of width \<open>2 ^ 32\<close> and height 2 with no
  address line is a single panel, and \<^verbatim>\<open>make_matrixmap\<close> returns a map for it. At
  \<open>i = 0\<close> and \<open>j = 2 ^ 31\<close> the panel index is 0, an even number, and the claim gives
  \<open>x = j mod width = 2 ^ 31\<close>; the \<^verbatim>\<open>int\<close> that the loop computes and passes to the
  callback is \<open>- (2 ^ 31)\<close>.
\<close>

theorem make_matrixmap_serpentine_column_wraps:
  "(\<exists>m. make_matrixmap (2 ^ 32) 2 0 True orientation_normal = Inr m
        \<and> m ! (2 * 2 ^ 31) = orientation_normal (ucast (2 ^ 32 :: size_t)) 2 (- (2 ^ 31)) 0)
   \<and> matrixmap_coords (2 ^ 32) 2 1 True 0 (2 ^ 31) = (- (2 ^ 31), 0, 1)
   \<and> even (unat (2 ^ 31 div 2 ^ 32 :: size_t))
   \<and> sint (- (2 ^ 31) :: c_int) = - (2 ^ 31)
   \<and> int (unat (2 ^ 31 mod 2 ^ 32 :: size_t)) = 2 ^ 31"
proof (intro conjI)
  have c: "matrixmap_coords (2 ^ 32) 2 1 True 0 (2 ^ 31) = (- (2 ^ 31), 0, 1)"
    by code_simp
  then show "matrixmap_coords (2 ^ 32) 2 1 True 0 (2 ^ 31) = (- (2 ^ 31), 0, 1)" .
  have h: "unat (0 :: size_t) \<le> 29" "unat (2 :: size_t) mod (2 * 2 ^ unat (0 :: size_t)) = 0"
      "unat (2 ^ 32 :: size_t) * unat (2 :: size_t) \<le> unat max_size"
      "unat (0 :: size_t) < 2 ^ unat (0 :: size_t)"
      "unat (2 ^ 31 :: size_t)
         < unat (2 ^ 32 :: size_t) * (unat (2 :: size_t) div (2 * 2 ^ unat (0 :: size_t)))"
    by (simp_all add: max_size_def)
  have c2: "matrixmap_coords (2 ^ 32) (2 * 2 ^ unat (0 :: size_t)) (2 ^ unat (0 :: size_t)) True
      0 (2 ^ 31) = (- (2 ^ 31), 0, 1)"
    using c by simp
  from make_matrixmap_nth [OF h c2, of orientation_normal]
  obtain m where "make_matrixmap (2 ^ 32) 2 0 True orientation_normal = Inr m"
    and "m ! (2 * (unat (0 :: size_t) * (unat (2 ^ 32 :: size_t)
                * (unat (2 :: size_t) div (2 * 2 ^ unat (0 :: size_t)))) + unat (2 ^ 31 :: size_t)))
          = orientation_normal (ucast (2 ^ 32 :: size_t)) (ucast (2 :: size_t)) (- (2 ^ 31)) 0"
    by blast
  then show "\<exists>m. make_matrixmap (2 ^ 32) 2 0 True orientation_normal = Inr m
        \<and> m ! (2 * 2 ^ 31) = orientation_normal (ucast (2 ^ 32 :: size_t)) 2 (- (2 ^ 31)) 0"
    by (intro exI [of _ m]) simp
  show "even (unat (2 ^ 31 div 2 ^ 32 :: size_t))"
    by simp
  show "sint (- (2 ^ 31) :: c_int) = - (2 ^ 31)"
    by simp
  show "int (unat (2 ^ 31 mod 2 ^ 32 :: size_t)) = 2 ^ 31"
    by simp
qed

section \<open>Construction of the geometry\<close>

lemma pixel_count:
  fixes n_addr_lines n_lanes pixels_across :: size_t
  assumes "unat n_addr_lines < 64"
  shows "unat (push_bit (unat n_addr_lines mod 64) n_lanes * pixels_across)
       = unat n_lanes * 2 ^ unat n_addr_lines * unat pixels_across mod 2 ^ 64"
proof -
  define n where "n = unat n_addr_lines"
  have n: "n < 64"
    using assms by (simp add: n_def)
  have count: "n mod 64 = n"
    using n by simp
  have "unat (push_bit n n_lanes) = unat (n_lanes * 2 ^ n)"
    by (simp only: push_bit_eq_mult)
  also have "\<dots> = unat n_lanes * unat (2 ^ n :: size_t) mod 2 ^ LENGTH(64)"
    by (rule unat_word_ariths(2))
  finally have shifted: "unat (push_bit n n_lanes) = unat n_lanes * 2 ^ n mod 2 ^ LENGTH(64)"
    by (simp only: unat_pow64 [OF n])
  have "unat (push_bit n n_lanes * pixels_across)
      = unat (push_bit n n_lanes) * unat pixels_across mod 2 ^ LENGTH(64)"
    by (rule unat_word_ariths(2))
  also have "\<dots> = unat n_lanes * 2 ^ n * unat pixels_across mod 2 ^ LENGTH(64)"
    by (simp only: shifted mod_mult_left_eq)
  finally have "unat (push_bit n n_lanes * pixels_across)
      = unat n_lanes * 2 ^ n * unat pixels_across mod 2 ^ LENGTH(64)" .
  moreover have "(2 :: nat) ^ LENGTH(64) = 2 ^ 64"
    by simp
  ultimately show ?thesis
    by (simp only: n_def [symmetric] count)
qed

text \<open>
  Claim C9 (as amended). With fewer than 64 address lines, the constructor that takes the
  map and the schedules throws exactly when the length of the map differs from
  \<open>(n_lanes << n_addr_lines) * pixels_across\<close>, a \<^verbatim>\<open>size_t\<close> product: the number
  \<open>n_lanes * 2 ^ n_addr_lines * pixels_across\<close> modulo \<open>2 ^ 64\<close>, which is that number
  whenever it is below \<open>2 ^ 64\<close>. With a map of that length it succeeds and stores its
  arguments, whatever the width, the height and the schedules are. Every geometry that
  any of the three constructors returns satisfies the length invariant in this form.
\<close>

theorem matrix_geometry_schedules_validation:
  assumes "unat n_addr_lines < 64"
  shows "(matrix_geometry_schedules pixels_across n_addr_lines width height m n_lanes schedules
            = Inl range_error
          \<longleftrightarrow> length m \<noteq> unat n_lanes * 2 ^ unat n_addr_lines * unat pixels_across mod 2 ^ 64)
   \<and> ((\<exists>e. matrix_geometry_schedules pixels_across n_addr_lines width height m n_lanes schedules
            = Inl e)
          \<longleftrightarrow> length m \<noteq> unat n_lanes * 2 ^ unat n_addr_lines * unat pixels_across mod 2 ^ 64)
   \<and> (length m = unat n_lanes * 2 ^ unat n_addr_lines * unat pixels_across mod 2 ^ 64
        \<longrightarrow> matrix_geometry_schedules pixels_across n_addr_lines width height m n_lanes schedules
            = Inr \<lparr>mg_pixels_across = pixels_across, mg_n_addr_lines = n_addr_lines,
                    mg_n_lanes = n_lanes, mg_width = width, mg_height = height,
                    mg_map = m, mg_schedules = schedules\<rparr>)
   \<and> (unat n_lanes * 2 ^ unat n_addr_lines * unat pixels_across < 2 ^ 64 \<longrightarrow>
        ((\<exists>e. matrix_geometry_schedules pixels_across n_addr_lines width height m n_lanes schedules
            = Inl e)
          \<longleftrightarrow> length m \<noteq> unat n_lanes * 2 ^ unat n_addr_lines * unat pixels_across))
   \<and> (\<forall>g. matrix_geometry_schedules pixels_across n_addr_lines width height m n_lanes schedules
            = Inr g
          \<or> matrix_geometry_planes pixels_across n_addr_lines n_planes width height m n_lanes
              n_temporal_dither = Some (Inr g)
          \<or> matrix_geometry_cb pixels_across n_addr_lines n_planes width height serpentine cb
              = Some (Inr g)
        \<longrightarrow> length (mg_map g)
              = unat (mg_n_lanes g) * 2 ^ unat (mg_n_addr_lines g) * unat (mg_pixels_across g)
                  mod 2 ^ 64
          \<and> (unat (mg_n_lanes g) * 2 ^ unat (mg_n_addr_lines g) * unat (mg_pixels_across g)
                < 2 ^ 64
              \<longrightarrow> length (mg_map g)
                = unat (mg_n_lanes g) * 2 ^ unat (mg_n_addr_lines g)
                    * unat (mg_pixels_across g)))"
proof -
  define count where "count = (\<lambda>l :: size_t. unat l * 2 ^ unat n_addr_lines * unat pixels_across)"
  have r: "matrix_geometry_schedules pixels_across n_addr_lines width height m' l schedules' =
      (if length m' \<noteq> count l mod 2 ^ 64 then Inl range_error
       else Inr \<lparr>mg_pixels_across = pixels_across, mg_n_addr_lines = n_addr_lines,
                 mg_n_lanes = l, mg_width = width, mg_height = height,
                 mg_map = m', mg_schedules = schedules'\<rparr>)" for m' l schedules'
    unfolding matrix_geometry_schedules_def Let_def count_def
    by (simp only: pixel_count [OF assms])
  have inv: "length (mg_map g) = unat (mg_n_lanes g) * 2 ^ unat (mg_n_addr_lines g)
          * unat (mg_pixels_across g) mod 2 ^ 64"
    if "matrix_geometry_schedules pixels_across n_addr_lines width height m' l schedules' = Inr g"
    for g m' l schedules'
    using that unfolding r count_def by (auto split: if_splits)
  have all: "length (mg_map g) = unat (mg_n_lanes g) * 2 ^ unat (mg_n_addr_lines g)
          * unat (mg_pixels_across g) mod 2 ^ 64"
    if "matrix_geometry_schedules pixels_across n_addr_lines width height m n_lanes schedules
            = Inr g
          \<or> matrix_geometry_planes pixels_across n_addr_lines n_planes width height m n_lanes
              n_temporal_dither = Some (Inr g)
          \<or> matrix_geometry_cb pixels_across n_addr_lines n_planes width height serpentine cb
              = Some (Inr g)" for g
    using that inv
    by (auto simp add: matrix_geometry_planes_def matrix_geometry_cb_def
          split: option.splits sum.splits)
  have c1: "matrix_geometry_schedules pixels_across n_addr_lines width height m n_lanes schedules
            = Inl range_error \<longleftrightarrow> length m \<noteq> count n_lanes mod 2 ^ 64"
    unfolding r by simp
  have c2: "(\<exists>e. matrix_geometry_schedules pixels_across n_addr_lines width height m n_lanes
            schedules = Inl e) \<longleftrightarrow> length m \<noteq> count n_lanes mod 2 ^ 64"
    unfolding r by simp
  have c3: "length m = count n_lanes mod 2 ^ 64
        \<longrightarrow> matrix_geometry_schedules pixels_across n_addr_lines width height m n_lanes schedules
            = Inr \<lparr>mg_pixels_across = pixels_across, mg_n_addr_lines = n_addr_lines,
                    mg_n_lanes = n_lanes, mg_width = width, mg_height = height,
                    mg_map = m, mg_schedules = schedules\<rparr>"
    unfolding r by simp
  have c4: "count n_lanes < 2 ^ 64 \<longrightarrow>
        ((\<exists>e. matrix_geometry_schedules pixels_across n_addr_lines width height m n_lanes
            schedules = Inl e) \<longleftrightarrow> length m \<noteq> count n_lanes)"
    unfolding r by simp
  have c5: "\<forall>g. matrix_geometry_schedules pixels_across n_addr_lines width height m n_lanes schedules
            = Inr g
          \<or> matrix_geometry_planes pixels_across n_addr_lines n_planes width height m n_lanes
              n_temporal_dither = Some (Inr g)
          \<or> matrix_geometry_cb pixels_across n_addr_lines n_planes width height serpentine cb
              = Some (Inr g)
        \<longrightarrow> length (mg_map g)
              = unat (mg_n_lanes g) * 2 ^ unat (mg_n_addr_lines g) * unat (mg_pixels_across g)
                  mod 2 ^ 64
          \<and> (unat (mg_n_lanes g) * 2 ^ unat (mg_n_addr_lines g) * unat (mg_pixels_across g)
                < 2 ^ 64
              \<longrightarrow> length (mg_map g)
                = unat (mg_n_lanes g) * 2 ^ unat (mg_n_addr_lines g)
                    * unat (mg_pixels_across g))"
  proof (intro allI impI conjI)
    fix g
    assume g: "matrix_geometry_schedules pixels_across n_addr_lines width height m n_lanes schedules
            = Inr g
          \<or> matrix_geometry_planes pixels_across n_addr_lines n_planes width height m n_lanes
              n_temporal_dither = Some (Inr g)
          \<or> matrix_geometry_cb pixels_across n_addr_lines n_planes width height serpentine cb
              = Some (Inr g)"
    then show modular: "length (mg_map g) = unat (mg_n_lanes g) * 2 ^ unat (mg_n_addr_lines g)
          * unat (mg_pixels_across g) mod 2 ^ 64"
      by (rule all)
    assume "unat (mg_n_lanes g) * 2 ^ unat (mg_n_addr_lines g) * unat (mg_pixels_across g) < 2 ^ 64"
    then show "length (mg_map g) = unat (mg_n_lanes g) * 2 ^ unat (mg_n_addr_lines g)
          * unat (mg_pixels_across g)"
      using modular by (simp only: mod_less)
  qed
  show ?thesis
    using c1 c2 c3 c4 c5 unfolding count_def by (intro conjI)
qed

theorem matrix_geometry_schedules_validation_witness:
  "unat (0 :: size_t) < 64
   \<and> matrix_geometry_schedules 2 0 7 9 [0, 2, 1, 3] 2 []
     = Inr \<lparr>mg_pixels_across = 2, mg_n_addr_lines = 0, mg_n_lanes = 2, mg_width = 7,
             mg_height = 9, mg_map = [0, 2, 1, 3], mg_schedules = []\<rparr>
   \<and> matrix_geometry_schedules 2 0 2 2 [0, 2, 1] 2 [] = Inl range_error"
proof -
  have h: "unat (0 :: size_t) < 64"
    by simp
  from matrix_geometry_schedules_validation [OF h, of 2 7 9 "[0, 2, 1, 3]" 2 "[]"]
    matrix_geometry_schedules_validation [OF h, of 2 2 2 "[0, 2, 1]" 2 "[]"]
  show ?thesis
    by simp
qed

text \<open>
  Claim C9 as stated compares the length of the map with the number
  \<open>(lanes * 2 ^ addressLines) * pixelsAcross\<close>. With \<open>2 ^ 32\<close> lanes, \<open>2 ^ 32\<close> pixels
  across and no address line that number is \<open>2 ^ 64\<close>; the \<^verbatim>\<open>size_t\<close> product is 0, and the
  constructor accepts the empty map.
\<close>

theorem matrix_geometry_schedules_accepts_wrapped_count:
  "matrix_geometry_schedules (2 ^ 32) 0 0 0 [] (2 ^ 32) []
     = Inr \<lparr>mg_pixels_across = 2 ^ 32, mg_n_addr_lines = 0, mg_n_lanes = 2 ^ 32, mg_width = 0,
             mg_height = 0, mg_map = [], mg_schedules = []\<rparr>
   \<and> length ([] :: matrix_map)
       \<noteq> unat (2 ^ 32 :: size_t) * 2 ^ unat (0 :: size_t) * unat (2 ^ 32 :: size_t)"
  by (simp add: matrix_geometry_schedules_def)

text \<open>
  Claim C1. The constructor that takes the plane count should store the schedules of
  \<^verbatim>\<open>make_temporal_dither_schedule(n_planes, pixels_across, n_temporal_dither)\<close>. It passes
  the last two arguments in the other order. For 64 pixels across, 10 planes and no
  temporal dithering the call it makes reads 64 as the temporal plane count and throws,
  where the call with the arguments in the order of the parameters returns the simple
  schedule of ten planes.
\<close>

theorem matrix_geometry_planes_swapped_arguments:
  "matrix_geometry_planes 64 4 10 64 32 m 2 0 = Some (Inl range_error)
   \<and> make_temporal_dither_schedule 10 64 0 =
       Some (Inr [[\<lparr>shift = 10, active_time = 1024\<rparr>, \<lparr>shift = 9, active_time = 512\<rparr>,
                   \<lparr>shift = 8, active_time = 256\<rparr>, \<lparr>shift = 7, active_time = 128\<rparr>,
                   \<lparr>shift = 6, active_time = 64\<rparr>, \<lparr>shift = 5, active_time = 32\<rparr>,
                   \<lparr>shift = 4, active_time = 16\<rparr>, \<lparr>shift = 3, active_time = 8\<rparr>,
                   \<lparr>shift = 2, active_time = 4\<rparr>, \<lparr>shift = 1, active_time = 2\<rparr>]])"
proof
  have "make_temporal_dither_schedule 10 0 (ucast (64 :: size_t)) = Some (Inl range_error)"
    by code_simp
  then show "matrix_geometry_planes 64 4 10 64 32 m 2 0 = Some (Inl range_error)"
    by (simp add: matrix_geometry_planes_def)
next
  show "make_temporal_dither_schedule 10 64 0 =
       Some (Inr [[\<lparr>shift = 10, active_time = 1024\<rparr>, \<lparr>shift = 9, active_time = 512\<rparr>,
                   \<lparr>shift = 8, active_time = 256\<rparr>, \<lparr>shift = 7, active_time = 128\<rparr>,
                   \<lparr>shift = 6, active_time = 64\<rparr>, \<lparr>shift = 5, active_time = 32\<rparr>,
                   \<lparr>shift = 4, active_time = 16\<rparr>, \<lparr>shift = 3, active_time = 8\<rparr>,
                   \<lparr>shift = 2, active_time = 4\<rparr>, \<lparr>shift = 1, active_time = 2\<rparr>]])"
    by code_simp
qed

end
